theory Spec2Isabelle
  imports Complex_Main "HOL-Library.Log_Nat" "HOL-Library.Word"
begin

section \<open>Python values used by \<^verbatim>\<open>ascii_video.py\<close>\<close>

text \<open>
  The source computes its grid sizes and glyph indices with Python floats, that is IEEE-754
  binary64 numbers rounded to nearest, ties to even. A float is modelled by the rational it
  denotes, or by one of the three special values. The two zeros are not distinguished: the
  source never divides by a zero without raising and never inspects the sign of a zero.
\<close>

datatype pyfloat = Fin rat | PInf | NInf | NaN

datatype pyerr = ZeroDivisionError | OverflowError | ValueError | IndexError | Cv2Error | OSError

text \<open>Sequencing of computations that may raise: the first exception wins.\<close>

definition py_bind :: "'e + 'a \<Rightarrow> ('a \<Rightarrow> 'e + 'b) \<Rightarrow> 'e + 'b" where
  "py_bind m f = (case m of Inl e \<Rightarrow> Inl e | Inr x \<Rightarrow> f x)"

fun py_map :: "('a \<Rightarrow> 'e + 'b) \<Rightarrow> 'a list \<Rightarrow> 'e + 'b list" where
  "py_map f [] = Inr []"
| "py_map f (x # xs) = py_bind (f x) (\<lambda>y. py_bind (py_map f xs) (\<lambda>ys. Inr (y # ys)))"

subsection \<open>Rounding to binary64\<close>

text \<open>\<open>ilog2 x\<close> is the binary exponent of a positive rational: \<open>2^e \<le> x < 2^(e+1)\<close>.\<close>

definition ilog2 :: "rat \<Rightarrow> int" where
  "ilog2 x = (let (p, q) = quotient_of x; e = bitlen p - bitlen q
              in if 2 powi e \<le> x then e else e - 1)"

definition round_half_even :: "rat \<Rightarrow> int" where
  "round_half_even x = (let f = \<lfloor>x\<rfloor>; d = x - of_int f
     in if d < 1 / 2 then f else if 1 / 2 < d then f + 1 else if even f then f else f + 1)"

text \<open>
  The spacing of binary64 numbers around \<open>x\<close> is \<open>2^(e - 52)\<close> with \<open>e\<close> the exponent of
  \<open>x\<close>, and \<open>2^(-1074)\<close> in the subnormal range.
\<close>

definition ulp_exp :: "rat \<Rightarrow> int" where
  "ulp_exp x = max (ilog2 x) (- 1022) - 52"

definition rnd :: "rat \<Rightarrow> rat" where
  "rnd x = (if x = 0 then 0 else
     sgn x * of_int (round_half_even (\<bar>x\<bar> / 2 powi ulp_exp \<bar>x\<bar>)) * 2 powi ulp_exp \<bar>x\<bar>)"

definition fround :: "rat \<Rightarrow> pyfloat" where
  "fround x = (let y = rnd x in
     if 2 powi 1024 \<le> y then PInf else if y \<le> - (2 powi 1024) then NInf else Fin y)"

subsection \<open>Arithmetic as Python performs it\<close>

text \<open>\<^verbatim>\<open>float(n)\<close> for an int, as done implicitly when an int meets a float.\<close>

definition float_of_int :: "int \<Rightarrow> pyerr + pyfloat" where
  "float_of_int n = (case fround (of_int n) of Fin q \<Rightarrow> Inr (Fin q) | _ \<Rightarrow> Inl OverflowError)"

text \<open>\<^verbatim>\<open>a / b\<close> for two ints: the correctly rounded quotient.\<close>

definition int_truediv :: "int \<Rightarrow> int \<Rightarrow> pyerr + pyfloat" where
  "int_truediv a b =
     (if b = 0 then Inl ZeroDivisionError
      else case fround (of_int a / of_int b) of Fin q \<Rightarrow> Inr (Fin q) | _ \<Rightarrow> Inl OverflowError)"

text \<open>\<^verbatim>\<open>x / y\<close> for two floats.\<close>

fun float_truediv :: "pyfloat \<Rightarrow> pyfloat \<Rightarrow> pyerr + pyfloat" where
  "float_truediv x (Fin b) =
     (if b = 0 then Inl ZeroDivisionError
      else Inr (case x of
                  Fin a \<Rightarrow> fround (a / b)
                | PInf \<Rightarrow> if 0 < b then PInf else NInf
                | NInf \<Rightarrow> if 0 < b then NInf else PInf
                | NaN \<Rightarrow> NaN))"
| "float_truediv (Fin a) PInf = Inr (Fin 0)"
| "float_truediv (Fin a) NInf = Inr (Fin 0)"
| "float_truediv x y = Inr NaN"

fun fneg :: "pyfloat \<Rightarrow> pyfloat" where
  "fneg (Fin a) = Fin (- a)"
| "fneg PInf = NInf"
| "fneg NInf = PInf"
| "fneg NaN = NaN"

text \<open>\<^verbatim>\<open>x * y\<close> for two floats.\<close>

fun float_mul :: "pyfloat \<Rightarrow> pyfloat \<Rightarrow> pyfloat" where
  "float_mul NaN y = NaN"
| "float_mul x NaN = NaN"
| "float_mul (Fin a) (Fin b) = fround (a * b)"
| "float_mul (Fin a) y = (if a = 0 then NaN else if 0 < a then y else fneg y)"
| "float_mul x (Fin b) = (if b = 0 then NaN else if 0 < b then x else fneg x)"
| "float_mul x y = (if x = y then PInf else NInf)"

text \<open>\<^verbatim>\<open>x < y\<close> and \<^verbatim>\<open>x <= y\<close> for two floats; every comparison with NaN is false.\<close>

fun fless :: "pyfloat \<Rightarrow> pyfloat \<Rightarrow> bool" where
  "fless NaN y = False"
| "fless x NaN = False"
| "fless (Fin a) (Fin b) = (a < b)"
| "fless NInf NInf = False"
| "fless NInf y = True"
| "fless x NInf = False"
| "fless PInf y = False"
| "fless x PInf = True"

definition fle :: "pyfloat \<Rightarrow> pyfloat \<Rightarrow> bool" where
  "fle x y = (fless x y \<or> (x = y \<and> x \<noteq> NaN))"

text \<open>\<^verbatim>\<open>min(x, y)\<close>: the second argument only when it is smaller than the first.\<close>

definition py_min :: "pyfloat \<Rightarrow> pyfloat \<Rightarrow> pyfloat" where
  "py_min x y = (if fless y x then y else x)"

text \<open>\<^verbatim>\<open>int(x)\<close> for a float: truncation towards zero.\<close>

fun py_int :: "pyfloat \<Rightarrow> pyerr + int" where
  "py_int (Fin q) = Inr (if 0 \<le> q then \<lfloor>q\<rfloor> else \<lceil>q\<rceil>)"
| "py_int NaN = Inl ValueError"
| "py_int x = Inl OverflowError"

text \<open>\<^verbatim>\<open>xs[i]\<close>: a negative index counts from the end.\<close>

definition py_getitem :: "'a list \<Rightarrow> int \<Rightarrow> pyerr + 'a" where
  "py_getitem xs i =
     (let n = int (length xs); j = (if i < 0 then i + n else i)
      in if 0 \<le> j \<and> j < n then Inr (xs ! nat j) else Inl IndexError)"

section \<open>Glyph mapper\<close>

text \<open>
  \<^verbatim>\<open>ASCII_CHARS = ".:-=+*#%@/\\|"\<close>: in the Python literal the two backslashes are the
  escape for one backslash character (code 0x5C).
\<close>

definition ASCII_CHARS :: string where
  "ASCII_CHARS = ''.:-=+*#%@/'' @ [CHR 0x5C] @ ''|''"

text \<open>\<^verbatim>\<open>idx = int((val / 255) * (len(chars) - 1))\<close>\<close>

definition gray_index :: "int \<Rightarrow> string \<Rightarrow> pyerr + int" where
  "gray_index val chars =
     py_bind (int_truediv val 255) (\<lambda>r.
     py_bind (float_of_int (int (length chars) - 1)) (\<lambda>k.
     py_int (float_mul r k)))"

definition get_char_for_gray :: "int \<Rightarrow> string \<Rightarrow> pyerr + char" where
  "get_char_for_gray val chars = py_bind (gray_index val chars) (py_getitem chars)"

section \<open>Luminance sampler\<close>

text \<open>The literal \<^verbatim>\<open>0.43\<close>: the binary64 number nearest to 43/100.\<close>

definition default_scale :: pyfloat where
  "default_scale = fround (43 / 100)"

text \<open>
  Lines 28 to 32 of \<^verbatim>\<open>frame_to_ascii_lines\<close>:
  \<^verbatim>\<open>tile_w = w / new_w; tile_h = tile_w / scale; new_h = max(1, int(h / tile_h))\<close>.
  \<open>row_quotient\<close> is the float \<^verbatim>\<open>h / tile_h\<close>.
\<close>

definition row_quotient :: "int \<Rightarrow> int \<Rightarrow> int \<Rightarrow> pyfloat \<Rightarrow> pyerr + pyfloat" where
  "row_quotient h w cols scale =
     py_bind (int_truediv w cols) (\<lambda>tile_w.
     py_bind (float_truediv tile_w scale) (\<lambda>tile_h.
     py_bind (float_of_int h) (\<lambda>hf.
     float_truediv hf tile_h)))"

definition sample_rows :: "int \<Rightarrow> int \<Rightarrow> int \<Rightarrow> pyfloat \<Rightarrow> pyerr + int" where
  "sample_rows h w cols scale =
     py_bind (row_quotient h w cols scale) (\<lambda>q.
     py_bind (py_int q) (\<lambda>n. Inr (max 1 n)))"

text \<open>
  \<^verbatim>\<open>cv2.resize\<close> is not part of the repository. Its result on the frame at hand is a
  parameter: \<open>resize new_w new_h r c\<close> is the sample in row \<open>r\<close>, column \<open>c\<close> of the array of
  shape \<open>(new_h, new_w)\<close> it returns, an unsigned byte. It raises for an empty source and for a
  target size that is not positive.
\<close>

definition frame_to_ascii_lines ::
  "(int \<Rightarrow> int \<Rightarrow> nat \<Rightarrow> nat \<Rightarrow> 8 word) \<Rightarrow> int \<Rightarrow> int \<Rightarrow> int \<Rightarrow> pyfloat \<Rightarrow> string
     \<Rightarrow> pyerr + string list" where
  "frame_to_ascii_lines resize h w cols scale chars =
     py_bind (sample_rows h w cols scale) (\<lambda>new_h.
       if cols \<le> 0 \<or> h \<le> 0 \<or> w \<le> 0 then Inl Cv2Error
       else py_map (\<lambda>r. py_map (\<lambda>c. get_char_for_gray (uint (resize cols new_h r c)) chars)
                              [0..<nat cols])
                   [0..<nat new_h])"

section \<open>Frame renderer, file mode\<close>

text \<open>
  The font enters only through \<^verbatim>\<open>draw.textbbox((0, 0), "M", font=font)\<close>, four integers.
\<close>

record font =
  bbox_M :: "int \<times> int \<times> int \<times> int"

type_synonym rgb = "nat \<times> nat \<times> nat"

record image =
  img_width :: int
  img_height :: int
  img_bg :: rgb
  img_text :: "(int \<times> int \<times> string \<times> rgb) list"

definition char_size :: "font \<Rightarrow> int \<times> int" where
  "char_size fnt =
     (case bbox_M fnt of (x0, y0, x1, y1) \<Rightarrow>
        let char_w = x1 - x0; char_h = y1 - y0
        in (if char_w \<le> 0 then 8 else char_w, if char_h \<le> 0 then 16 else char_h))"

text \<open>\<^verbatim>\<open>max((len(line) for line in lines), default=1)\<close>\<close>

definition max_cols :: "string list \<Rightarrow> int" where
  "max_cols lines = (case map (\<lambda>l. int (length l)) lines of [] \<Rightarrow> 1 | n # ns \<Rightarrow> fold max ns n)"

definition make_even :: "int \<Rightarrow> int" where
  "make_even n = (if n mod 2 \<noteq> 0 then n + 1 else n)"

definition image_size :: "string list \<Rightarrow> font \<Rightarrow> int \<Rightarrow> int \<times> int" where
  "image_size lines fnt padding =
     (case char_size fnt of (char_w, char_h) \<Rightarrow>
        let rows = max 1 (int (length lines));
            img_w = char_w * max_cols lines + padding * 2;
            img_h = char_h * rows + padding * 2
        in (make_even img_w, make_even img_h))"

text \<open>The loop \<^verbatim>\<open>for line in lines: draw.text((padding, y), line, ...); y += char_h\<close>.\<close>

fun draw_lines :: "int \<Rightarrow> int \<Rightarrow> int \<Rightarrow> rgb \<Rightarrow> string list \<Rightarrow> (int \<times> int \<times> string \<times> rgb) list" where
  "draw_lines x y char_h fg [] = []"
| "draw_lines x y char_h fg (line # lines) = (x, y, line, fg) # draw_lines x (y + char_h) char_h fg lines"

text \<open>\<^verbatim>\<open>Image.new\<close> raises ValueError for a negative width or height.\<close>

definition render_ascii_to_image :: "string list \<Rightarrow> font \<Rightarrow> rgb \<Rightarrow> rgb \<Rightarrow> int \<Rightarrow> pyerr + image" where
  "render_ascii_to_image lines fnt bg fg padding =
     (case image_size lines fnt padding of (img_w, img_h) \<Rightarrow>
        if img_w < 0 \<or> img_h < 0 then Inl ValueError
        else Inr \<lparr>img_width = img_w, img_height = img_h, img_bg = bg,
                  img_text = draw_lines padding padding (snd (char_size fnt)) fg lines\<rparr>)"

section \<open>What the pipeline does to the outside world\<close>

datatype fourcc = MP4V | MJPG

datatype message =
    CannotOpen string
  | WriterOpenFailed
  | SavedTo string
  | AudioMerged string
  | AudioMergeFailed string
  | FrameWriteFailed
  | StoppedByUser
  | Warning string

text \<open>
  A frame handed to \<^verbatim>\<open>writer.write\<close>: the size of the array, where the rendered image
  sits in it and how large it is there, and the colour of the array around it.
\<close>

record out_frame =
  of_w :: int
  of_h :: int
  of_x :: int
  of_y :: int
  of_cw :: int
  of_ch :: int
  of_margin :: rgb

datatype write_result = WriteOk | WriteRaises | WriteInterrupted

datatype event =
    ShowError message
  | ShowInfo message
  | ShowWarning message
  | PrintMsg message
  | PrintFrame "string list"
  | CapRelease
  | WriterCreate nat string fourcc pyfloat "int \<times> int" bool
  | WriterRelease nat
  | WriterWrite nat out_frame write_result
  | RunFFmpeg "string list"

section \<open>Audio remux\<close>

text \<open>
  \<^verbatim>\<open>subprocess.run(cmd, check=True, capture_output=True, text=True)\<close> either returns, with
  the tool's stderr, or raises CalledProcessError, with the stderr and the text of the exception.
\<close>

datatype proc_result = ProcOk string | CalledProcessError string string

definition merge_audio ::
  "string option \<Rightarrow> (string list \<Rightarrow> proc_result) \<Rightarrow> string \<Rightarrow> string \<Rightarrow> string
     \<Rightarrow> (bool \<times> string) \<times> event list" where
  "merge_audio which run video_path audio_src output_path =
     (case which of
        None \<Rightarrow>
          let msg = ''FFmpeg not found in PATH. Install FFmpeg to enable audio merging.''
          in ((False, msg), [PrintMsg (Warning msg)])
      | Some ffmpeg_exe \<Rightarrow>
          let cmd = [ffmpeg_exe, ''-y'', ''-i'', video_path, ''-i'', audio_src, ''-c:v'', ''copy'',
                     ''-map'', ''0:v:0'', ''-map'', ''1:a:0'', ''-shortest'', output_path]
          in case run cmd of
               ProcOk err \<Rightarrow> ((True, err), [RunFFmpeg cmd])
             | CalledProcessError err str_e \<Rightarrow>
                 ((False, if err = [] then str_e else err), [RunFFmpeg cmd]))"

section \<open>Video pipeline\<close>

subsection \<open>The environment\<close>

text \<open>
  One successful \<^verbatim>\<open>cap.read()\<close>: the error \<^verbatim>\<open>cv2.cvtColor(frame, cv2.COLOR_BGR2GRAY)\<close>
  raises on the decoded frame, if it raises; the shape of the grayscale frame, what
  \<^verbatim>\<open>cv2.resize\<close> returns on it, what \<^verbatim>\<open>writer.get\<close> answers for the frame width and
  height while this frame is processed, and how \<^verbatim>\<open>writer.write\<close> ends. A read can also be
  cut short by KeyboardInterrupt. The end of the list is the read that returns no frame.
\<close>

record frame_in =
  fr_cvt :: "pyerr option"
  fr_h :: int
  fr_w :: int
  fr_resize :: "int \<Rightarrow> int \<Rightarrow> nat \<Rightarrow> nat \<Rightarrow> 8 word"
  fr_get :: "pyfloat \<times> pyfloat"
  fr_write :: write_result

datatype read_result = Frame frame_in | ReadInterrupted

text \<open>
  What the function finds outside: whether the input opens, the rate and the reads of the
  input, which files exist (\<^verbatim>\<open>os.path.exists\<close>), what \<^verbatim>\<open>ImageFont.truetype\<close> returns or
  raises for a path and a size, the font of \<^verbatim>\<open>ImageFont.load_default()\<close>, whether a writer
  opens, \<^verbatim>\<open>os.path.splitext\<close>, and the muxing tool.
\<close>

record world =
  cap_isOpened :: bool
  cap_fps :: pyfloat
  cap_reads :: "read_result list"
  path_exists :: "string \<Rightarrow> bool"
  truetype :: "string \<Rightarrow> int \<Rightarrow> pyerr + font"
  load_default :: font
  writer_isOpened :: "string \<Rightarrow> fourcc \<Rightarrow> bool"
  splitext_root :: "string \<Rightarrow> string"
  which_ffmpeg :: "string option"
  run_ffmpeg :: "string list \<Rightarrow> proc_result"

text \<open>
  The local variables of \<^verbatim>\<open>convert_video\<close> that change in the loop, and the effects so far.
  Writer objects are numbered in the order of their creation.
\<close>

record loop_state =
  writer :: "nat option"
  created :: nat
  output_path :: string
  trace :: "event list"

datatype exit = Broke | Returned | Raised pyerr | Interrupted

datatype outcome = NotOpened | Completed | WriterFailed | Stopped | Crashed pyerr

definition emit :: "event list \<Rightarrow> loop_state \<Rightarrow> loop_state" where
  "emit evs s = s\<lparr>trace := trace s @ evs\<rparr>"

text \<open>\<^verbatim>\<open>fps = fps if fps > 0 else (in_fps if in_fps > 0 else 24.0)\<close>\<close>

definition resolve_fps :: "pyfloat \<Rightarrow> pyfloat \<Rightarrow> pyfloat" where
  "resolve_fps fps in_fps =
     (if fless (Fin 0) fps then fps else if fless (Fin 0) in_fps then in_fps else Fin 24)"

subsection \<open>Font setup (lines 120 to 131)\<close>

text \<open>
  The first candidate path that exists is loaded at the requested size;
  \<^verbatim>\<open>ImageFont.truetype\<close> can raise there. Without any candidate the default font is used.
\<close>

definition font_candidates :: "string list" where
  "font_candidates =
     [''/usr/share/fonts/truetype/dejavu/DejaVuSansMono.ttf'',
      ''C:'' @ [CHR 0x5C] @ ''Windows'' @ [CHR 0x5C] @ ''Fonts'' @ [CHR 0x5C] @ ''consola.ttf'',
      ''C:'' @ [CHR 0x5C] @ ''Windows'' @ [CHR 0x5C] @ ''Fonts'' @ [CHR 0x5C] @ ''lucon.ttf'']"

definition font_setup :: "world \<Rightarrow> int \<Rightarrow> pyerr + font" where
  "font_setup W font_size =
     (case find (path_exists W) font_candidates of
        None \<Rightarrow> Inr (load_default W)
      | Some font_path \<Rightarrow> truetype W font_path font_size)"

subsection \<open>Opening the writer on the first rendered frame (lines 161 to 179)\<close>

text \<open>
  The result names the writer that is open afterwards; it is \<open>None\<close> when line 179 returns
  from \<^verbatim>\<open>convert_video\<close>.
\<close>

definition writer_first ::
  "world \<Rightarrow> pyfloat \<Rightarrow> int \<Rightarrow> int \<Rightarrow> loop_state \<Rightarrow> nat option \<times> loop_state" where
  "writer_first W fps img_w img_h s =
     (let i = created s;
          p = output_path s;
          ok = writer_isOpened W p MP4V;
          s1 = emit [WriterCreate i p MP4V fps (img_w, img_h) ok]
                 (s\<lparr>writer := Some i, created := i + 1\<rparr>)
      in if ok then (Some i, s1)
         else
           let alt_path = splitext_root W p @ ''.avi'';
               ok2 = writer_isOpened W alt_path MJPG;
               s2 = emit [WriterRelease i, WriterCreate (i + 1) alt_path MJPG fps (img_w, img_h) ok2]
                      (s1\<lparr>writer := Some (i + 1), created := i + 2\<rparr>)
           in if ok2 then (Some (i + 1), s2\<lparr>output_path := alt_path\<rparr>)
              else (None, emit [ShowError WriterOpenFailed, CapRelease] s2))"

subsection \<open>The size asked of an existing writer (lines 181 to 185)\<close>

text \<open>\<^verbatim>\<open>int(writer.get(...) or 0)\<close>\<close>

definition get_dim :: "pyfloat \<Rightarrow> pyerr + int" where
  "get_dim x = (if x = Fin 0 then Inr 0 else py_int x)"

definition writer_size :: "pyfloat \<times> pyfloat \<Rightarrow> int \<Rightarrow> int \<Rightarrow> pyerr + int \<times> int" where
  "writer_size g img_w img_h =
     py_bind (get_dim (fst g)) (\<lambda>out_w.
     py_bind (get_dim (snd g)) (\<lambda>out_h.
     Inr (if out_w \<le> 0 \<or> out_h \<le> 0 then (img_w, img_h) else (out_w, out_h))))"

subsection \<open>Fitting a frame into the canvas (lines 187 to 207)\<close>

text \<open>
  The part of an axis of length \<open>n\<close> that the slice \<^verbatim>\<open>[start:stop]\<close> selects: its first
  index and its length.
\<close>

definition slice_adjust :: "int \<Rightarrow> int \<Rightarrow> int" where
  "slice_adjust n i = (if i < 0 then max 0 (i + n) else min i n)"

definition py_slice :: "int \<Rightarrow> int \<Rightarrow> int \<Rightarrow> int \<times> int" where
  "py_slice n start stop =
     (let a = slice_adjust n start; b = slice_adjust n stop in (a, max 0 (b - a)))"

text \<open>
  \<^verbatim>\<open>canvas[y:y+new_h, x:x+new_w] = frame_resized\<close> succeeds when each axis of the value has
  the length of the selected region, or length 1; otherwise numpy raises ValueError, as
  \<^verbatim>\<open>np.zeros\<close> does for a negative size. The canvas is made of zeros, which is black, the
  background the frames are rendered with.
\<close>

text \<open>A rendered image written as it is.\<close>

definition whole_frame :: "int \<Rightarrow> int \<Rightarrow> out_frame" where
  "whole_frame img_w img_h =
     \<lparr>of_w = img_w, of_h = img_h, of_x = 0, of_y = 0, of_cw = img_w, of_ch = img_h,
      of_margin = (0, 0, 0)\<rparr>"

definition fit_frame :: "int \<Rightarrow> int \<Rightarrow> int \<Rightarrow> int \<Rightarrow> pyerr + out_frame" where
  "fit_frame img_w img_h out_w out_h =
     (if (img_w, img_h) \<noteq> (out_w, out_h) then
        py_bind (int_truediv out_w img_w) (\<lambda>sx.
        py_bind (int_truediv out_h img_h) (\<lambda>sy.
        let scale = py_min sx sy;
            scale = (if fle scale (Fin 0) then Fin 1 else scale)
        in
        py_bind (float_of_int img_w) (\<lambda>fw.
        py_bind (py_int (float_mul fw scale)) (\<lambda>nw.
        py_bind (float_of_int img_h) (\<lambda>fh.
        py_bind (py_int (float_mul fh scale)) (\<lambda>nh.
        let new_w = max 1 nw;
            new_h = max 1 nh
        in
        if out_w < 0 \<or> out_h < 0 then Inl ValueError
        else
          let x = (out_w - new_w) div 2;
              y = (out_h - new_h) div 2;
              rows = py_slice out_h y (y + new_h);
              cols = py_slice out_w x (x + new_w)
          in if (new_h = snd rows \<or> new_h = 1) \<and> (new_w = snd cols \<or> new_w = 1)
             then Inr \<lparr>of_w = out_w, of_h = out_h, of_x = fst cols, of_y = fst rows,
                       of_cw = snd cols, of_ch = snd rows, of_margin = (0, 0, 0)\<rparr>
             else Inl ValueError))))))
      else Inr (whole_frame img_w img_h))"

subsection \<open>One frame in save mode (lines 156 to 212)\<close>

definition write_frame :: "nat \<Rightarrow> loop_state \<Rightarrow> write_result \<Rightarrow> out_frame \<Rightarrow> exit option \<times> loop_state" where
  "write_frame i s res fr =
     (case res of
        WriteOk \<Rightarrow> (None, emit [WriterWrite i fr WriteOk] s)
      | WriteRaises \<Rightarrow> (None, emit [WriterWrite i fr WriteRaises, PrintMsg FrameWriteFailed] s)
      | WriteInterrupted \<Rightarrow> (Some Interrupted, emit [WriterWrite i fr WriteInterrupted] s))"

definition emit_frame ::
  "nat \<Rightarrow> loop_state \<Rightarrow> frame_in \<Rightarrow> int \<Rightarrow> int \<Rightarrow> int \<Rightarrow> int \<Rightarrow> exit option \<times> loop_state" where
  "emit_frame i s f img_w img_h out_w out_h =
     (case fit_frame img_w img_h out_w out_h of
        Inl e \<Rightarrow> (Some (Raised e), s)
      | Inr fr \<Rightarrow> write_frame i s (fr_write f) fr)"

definition save_frame ::
  "world \<Rightarrow> pyfloat \<Rightarrow> loop_state \<Rightarrow> frame_in \<Rightarrow> int \<Rightarrow> int \<Rightarrow> exit option \<times> loop_state" where
  "save_frame W fps s f img_w img_h =
     (case writer s of
        None \<Rightarrow>
          (case writer_first W fps img_w img_h s of
             (None, s') \<Rightarrow> (Some Returned, s')
           | (Some i, s') \<Rightarrow> emit_frame i s' f img_w img_h img_w img_h)
      | Some i \<Rightarrow>
          (case writer_size (fr_get f) img_w img_h of
             Inl e \<Rightarrow> (Some (Raised e), s)
           | Inr (out_w, out_h) \<Rightarrow> emit_frame i s f img_w img_h out_w out_h))"

subsection \<open>The loop and the function\<close>

text \<open>
  The frame is converted to grayscale (line 144), which can raise. In terminal mode it is then
  printed; the pause that follows it is not modelled. In save mode it is rendered with the
  default colours and padding 6, and the image is converted to BGR (line 157), which raises for
  an image without pixels.
\<close>

definition process_frame ::
  "world \<Rightarrow> font \<Rightarrow> int \<Rightarrow> pyfloat \<Rightarrow> bool \<Rightarrow> loop_state \<Rightarrow> frame_in
     \<Rightarrow> exit option \<times> loop_state" where
  "process_frame W fnt cols fps save_mode s f =
     (case fr_cvt f of
        Some e \<Rightarrow> (Some (Raised e), s)
      | None \<Rightarrow>
     (case frame_to_ascii_lines (fr_resize f) (fr_h f) (fr_w f) cols default_scale ASCII_CHARS of
        Inl e \<Rightarrow> (Some (Raised e), s)
      | Inr lines \<Rightarrow>
          if \<not> save_mode then (None, emit [PrintFrame lines] s)
          else
            (case render_ascii_to_image lines fnt (0, 0, 0) (255, 255, 255) 6 of
               Inl e \<Rightarrow> (Some (Raised e), s)
             | Inr img \<Rightarrow>
                 if img_width img \<le> 0 \<or> img_height img \<le> 0 then (Some (Raised Cv2Error), s)
                 else save_frame W fps s f (img_width img) (img_height img))))"

fun run_loop ::
  "world \<Rightarrow> font \<Rightarrow> int \<Rightarrow> pyfloat \<Rightarrow> bool \<Rightarrow> loop_state \<Rightarrow> read_result list
     \<Rightarrow> exit \<times> loop_state" where
  "run_loop W fnt cols fps save_mode s [] = (Broke, s)"
| "run_loop W fnt cols fps save_mode s (ReadInterrupted # rs) = (Interrupted, s)"
| "run_loop W fnt cols fps save_mode s (Frame f # rs) =
     (case process_frame W fnt cols fps save_mode s f of
        (None, s') \<Rightarrow> run_loop W fnt cols fps save_mode s' rs
      | (Some x, s') \<Rightarrow> (x, s'))"

text \<open>The \<^verbatim>\<open>finally\<close> clause (lines 231 to 234).\<close>

definition release_all :: "loop_state \<Rightarrow> event list" where
  "release_all s = (case writer s of None \<Rightarrow> [] | Some i \<Rightarrow> [WriterRelease i]) @ [CapRelease]"

text \<open>Lines 214 to 227, reached when the loop ends with the stream.\<close>

definition after_loop :: "world \<Rightarrow> string \<Rightarrow> bool \<Rightarrow> bool \<Rightarrow> loop_state \<Rightarrow> event list" where
  "after_loop W input_path save_mode merge_audio_opt s =
     release_all s @
     (if save_mode then
        ShowInfo (SavedTo (output_path s)) #
        (if merge_audio_opt then
           let out_with_audio = splitext_root W (output_path s) @ ''_with_audio.mp4''
           in case merge_audio (which_ffmpeg W) (run_ffmpeg W) (output_path s) input_path out_with_audio of
                ((success, msg), evs) \<Rightarrow>
                  evs @ [if success then ShowInfo (AudioMerged out_with_audio)
                         else ShowWarning (AudioMergeFailed msg)]
         else [])
      else [])"

text \<open>
  Lines 115 to 131, between opening the input and the \<^verbatim>\<open>try\<close> statement: the frame rate, the
  frame delay \<^verbatim>\<open>1.0 / fps\<close> and the font. The result is the rate and the font the loop
  runs with, or the exception that leaves the function from there.
\<close>

definition before_loop :: "world \<Rightarrow> pyfloat \<Rightarrow> int \<Rightarrow> pyerr + pyfloat \<times> font" where
  "before_loop W fps font_size =
     (let in_fps = cap_fps W;
          fps = resolve_fps fps in_fps
      in py_bind (float_truediv (Fin 1) fps) (\<lambda>frame_delay.
         py_bind (font_setup W font_size) (\<lambda>fnt. Inr (fps, fnt))))"

text \<open>
  The whole function: how it ends and the effects it has had. An exception raised before the
  \<^verbatim>\<open>try\<close> statement (line 138) leaves the function at once, without passing through the
  \<^verbatim>\<open>finally\<close> clause; one raised in the loop passes through it. Lines 133 to 136 set
  \<^verbatim>\<open>writer\<close> to \<^verbatim>\<open>None\<close> and name the codec mp4v, the one the first writer is created with.
\<close>

definition convert_video ::
  "world \<Rightarrow> string \<Rightarrow> string \<Rightarrow> int \<Rightarrow> pyfloat \<Rightarrow> int \<Rightarrow> bool \<Rightarrow> bool
     \<Rightarrow> outcome \<times> event list" where
  "convert_video W input_path out_path cols fps font_size save_mode merge_audio_opt =
     (if \<not> cap_isOpened W then (NotOpened, [ShowError (CannotOpen input_path)])
      else
        case before_loop W fps font_size of
          Inl e \<Rightarrow> (Crashed e, [])
        | Inr (rate, fnt) \<Rightarrow>
            (let s0 = \<lparr>writer = None, created = 0, output_path = out_path, trace = []\<rparr>
             in (case run_loop W fnt cols rate save_mode s0 (cap_reads W) of
                   (Broke, s) \<Rightarrow>
                     (Completed,
                      trace s @ after_loop W input_path save_mode merge_audio_opt s @ release_all s)
                 | (Returned, s) \<Rightarrow> (WriterFailed, trace s @ release_all s)
                 | (Raised e, s) \<Rightarrow> (Crashed e, trace s @ release_all s)
                 | (Interrupted, s) \<Rightarrow>
                     (Stopped, trace s @ [PrintMsg StoppedByUser] @ release_all s))))"

text \<open>The handles still open after a sequence of effects, given those open before it.\<close>

datatype handle = Cap | Writer nat

fun open_after :: "handle list \<Rightarrow> event list \<Rightarrow> handle list" where
  "open_after hs [] = hs"
| "open_after hs (WriterCreate i p c fps sz ok # evs) = open_after (Writer i # hs) evs"
| "open_after hs (WriterRelease i # evs) = open_after (removeAll (Writer i) hs) evs"
| "open_after hs (CapRelease # evs) = open_after (removeAll Cap hs) evs"
| "open_after hs (ev # evs) = open_after hs evs"

subsection \<open>Reading a trace\<close>

fun is_create :: "event \<Rightarrow> bool" where
  "is_create (WriterCreate i p c fps sz ok) = True"
| "is_create ev = False"

text \<open>The writer and the array size of every \<^verbatim>\<open>writer.write\<close>, in order.\<close>

fun frame_sizes :: "event list \<Rightarrow> (nat \<times> int \<times> int) list" where
  "frame_sizes [] = []"
| "frame_sizes (WriterWrite i fr r # evs) = (i, of_w fr, of_h fr) # frame_sizes evs"
| "frame_sizes (ev # evs) = frame_sizes evs"

subsection \<open>A small environment to run the pipeline in\<close>

text \<open>
  Frames whose resized version is black everywhere, a machine with the first candidate font,
  whose "M" measures 8 by 16 and whose loading raises ValueError for a size that is not
  positive, no muxing tool, and a writer that answers 0 when asked for its frame size.
\<close>

definition blank_resize :: "int \<Rightarrow> int \<Rightarrow> nat \<Rightarrow> nat \<Rightarrow> 8 word" where
  "blank_resize new_w new_h r c = 0"

definition small_frame :: frame_in where
  "small_frame = \<lparr>fr_cvt = None, fr_h = 2, fr_w = 2, fr_resize = blank_resize, fr_get = (Fin 0, Fin 0),
                   fr_write = WriteOk\<rparr>"


definition example_font :: font where
  "example_font = \<lparr>bbox_M = (0, 0, 8, 16)\<rparr>"

definition always_opens :: "string \<Rightarrow> fourcc \<Rightarrow> bool" where
  "always_opens p c = True"

definition example_world :: "read_result list \<Rightarrow> (string \<Rightarrow> fourcc \<Rightarrow> bool) \<Rightarrow> world" where
  "example_world reads opens =
     \<lparr>cap_isOpened = True, cap_fps = Fin 24, cap_reads = reads,
      path_exists = (\<lambda>p. p = ''/usr/share/fonts/truetype/dejavu/DejaVuSansMono.ttf''),
      truetype = (\<lambda>p n. if n \<le> 0 then Inl ValueError else Inr example_font),
      load_default = example_font, writer_isOpened = opens,
      splitext_root = takeWhile (\<lambda>c. c \<noteq> CHR ''.''), which_ffmpeg = None,
      run_ffmpeg = (\<lambda>cmd. ProcOk [])\<rparr>"

section \<open>Properties of the rounding\<close>

lemma powi_pos: "0 < (2::rat) powi e"
  by (simp add: zero_less_power_int)

lemma powi_mono: "a \<le> b \<Longrightarrow> (2::rat) powi a \<le> 2 powi b"
  by (rule power_int_increasing) simp_all

lemma powi_less_cancel: "(2::rat) powi a < 2 powi b \<Longrightarrow> a < b"
  by (metis not_le powi_mono leD)

lemma powi_split: "(2::rat) powi (a + b) = 2 powi a * 2 powi b"
  by (simp add: power_int_add)

lemma bitlen_powi_bounds:
  assumes "0 < p"
  shows "2 powi (bitlen p - 1) \<le> (of_int p :: rat)" and "(of_int p :: rat) < 2 powi (bitlen p)"
proof -
  from assms have b1: "1 \<le> bitlen p" by (auto simp: bitlen_alt_def)
  from bitlen_bounds[OF assms] have lo: "2 ^ nat (bitlen p - 1) \<le> p" and hi: "p < 2 ^ nat (bitlen p)"
    by auto
  from lo have "(of_int (2 ^ nat (bitlen p - 1)) :: rat) \<le> of_int p"
    by (simp only: of_int_le_iff)
  then show "2 powi (bitlen p - 1) \<le> (of_int p :: rat)"
    using b1 by (simp add: power_int_def)
  from hi have "(of_int p :: rat) < of_int (2 ^ nat (bitlen p))"
    by (simp only: of_int_less_iff)
  then show "(of_int p :: rat) < 2 powi (bitlen p)"
    using b1 by (simp add: power_int_def)
qed

lemma ilog2_bounds:
  assumes "0 < x"
  shows "2 powi (ilog2 x) \<le> x" and "x < 2 powi (ilog2 x + 1)"
proof -
  obtain p q where pq: "quotient_of x = (p, q)" by (cases "quotient_of x")
  then have q: "0 < q" and x: "x = of_int p / of_int q"
    by (auto simp: quotient_of_denom_pos quotient_of_div)
  with assms have p: "0 < p" by (simp add: zero_less_divide_iff)
  define e where "e = bitlen p - bitlen q"
  note P = bitlen_powi_bounds[OF p] and Q = bitlen_powi_bounds[OF q]
  have qpos: "(0::rat) < of_int q" using q by simp
  have "x < 2 powi (bitlen p) / 2 powi (bitlen q - 1)"
    unfolding x using P(2) Q(1) p powi_pos[of "bitlen q - 1"]
    by (intro frac_less) auto
  also have "\<dots> = 2 powi (e + 1)"
    by (simp add: e_def power_int_diff[symmetric] algebra_simps)
  finally have up: "x < 2 powi (e + 1)" .
  have "2 powi (bitlen p - 1) / 2 powi (bitlen q) < x"
    unfolding x using P(1) Q(2) qpos powi_pos[of "bitlen p - 1"]
    by (intro frac_less2) (auto simp: less_imp_le)
  moreover have "2 powi (bitlen p - 1) / 2 powi (bitlen q) = (2::rat) powi (e - 1)"
    by (simp add: e_def power_int_diff[symmetric] algebra_simps)
  ultimately have lo: "2 powi (e - 1) < x" by simp
  have il: "ilog2 x = (if 2 powi e \<le> x then e else e - 1)"
    by (simp add: ilog2_def pq e_def Let_def)
  show "2 powi (ilog2 x) \<le> x" using lo by (simp add: il less_imp_le)
  show "x < 2 powi (ilog2 x + 1)" using up by (simp add: il not_le)
qed

lemma ilog2_mono:
  assumes "0 < x" "x \<le> y"
  shows "ilog2 x \<le> ilog2 y"
proof -
  have y: "0 < y" using assms by simp
  have "2 powi (ilog2 x) \<le> x" by (rule ilog2_bounds[OF assms(1)])
  also note assms(2)
  also have "y < 2 powi (ilog2 y + 1)" by (rule ilog2_bounds[OF y])
  finally have "ilog2 x < ilog2 y + 1" by (rule powi_less_cancel)
  then show ?thesis by simp
qed

lemma rhe_cases: "round_half_even x = \<lfloor>x\<rfloor> \<or> round_half_even x = \<lfloor>x\<rfloor> + 1"
  by (simp add: round_half_even_def Let_def)

lemma rhe_of_int [simp]: "round_half_even (of_int n) = n"
  by (simp add: round_half_even_def Let_def)

lemma rhe_err: "\<bar>of_int (round_half_even x) - x\<bar> \<le> 1 / 2"
proof -
  have "of_int \<lfloor>x\<rfloor> \<le> x" "x < of_int \<lfloor>x\<rfloor> + 1" by linarith+
  then show ?thesis
    by (auto simp: round_half_even_def Let_def abs_le_iff not_less)
qed

lemma rhe_mono:
  assumes "x \<le> y"
  shows "round_half_even x \<le> round_half_even y"
proof (cases "\<lfloor>x\<rfloor> = \<lfloor>y\<rfloor>")
  case True
  then show ?thesis using assms
    by (auto simp: round_half_even_def Let_def not_less)
next
  case False
  with assms have "\<lfloor>x\<rfloor> + 1 \<le> \<lfloor>y\<rfloor>" using floor_mono[OF assms] by linarith
  moreover have "round_half_even x \<le> \<lfloor>x\<rfloor> + 1" using rhe_cases[of x] by auto
  moreover have "\<lfloor>y\<rfloor> \<le> round_half_even y" using rhe_cases[of y] by auto
  ultimately show ?thesis by linarith
qed

lemma rhe_le_int: "x \<le> of_int n \<Longrightarrow> round_half_even x \<le> n"
  using rhe_mono[of x "of_int n"] by simp

lemma rhe_ge_int: "of_int n \<le> x \<Longrightarrow> n \<le> round_half_even x"
  using rhe_mono[of "of_int n" x] by simp

lemma rnd_pos:
  "0 < x \<Longrightarrow> rnd x = of_int (round_half_even (x / 2 powi ulp_exp x)) * 2 powi ulp_exp x"
  by (simp add: rnd_def)

lemma rnd_zero [simp]: "rnd 0 = 0"
  by (simp add: rnd_def)

lemma rnd_nonneg: "0 \<le> x \<Longrightarrow> 0 \<le> rnd x"
proof (cases "x = 0")
  case False
  assume "0 \<le> x"
  with False have x: "0 < x" by simp
  have "(of_int 0 :: rat) \<le> x / 2 powi ulp_exp x" using x powi_pos[of "ulp_exp x"] by simp
  then have "0 \<le> round_half_even (x / 2 powi ulp_exp x)" by (rule rhe_ge_int)
  then show ?thesis using powi_pos[of "ulp_exp x"] by (simp add: rnd_pos[OF x])
qed simp

lemma rnd_upper:
  assumes "0 < x"
  shows "rnd x \<le> 2 powi (ulp_exp x + 53)"
proof -
  let ?u = "(2::rat) powi ulp_exp x"
  have "x < 2 powi (ilog2 x + 1)" by (rule ilog2_bounds[OF assms])
  also have "\<dots> \<le> 2 powi (ulp_exp x + 53)" by (rule powi_mono) (simp add: ulp_exp_def)
  also have "\<dots> = of_int (2 ^ 53) * ?u" by (simp add: powi_split)
  finally have "x / ?u \<le> of_int (2 ^ 53)" using powi_pos[of "ulp_exp x"]
    by (simp add: pos_divide_le_eq less_imp_le)
  then have "round_half_even (x / ?u) \<le> 2 ^ 53" by (rule rhe_le_int)
  then have "(of_int (round_half_even (x / ?u)) :: rat) \<le> of_int (2 ^ 53)"
    by (simp only: of_int_le_iff)
  then have "of_int (round_half_even (x / ?u)) * ?u \<le> of_int (2 ^ 53) * ?u"
    using powi_pos[of "ulp_exp x"] by (simp only: mult_le_cancel_right_pos)
  then show ?thesis by (simp add: rnd_pos[OF assms] powi_split)
qed

lemma rnd_lower:
  assumes "0 < x" "- 1022 \<le> ilog2 x"
  shows "2 powi (ulp_exp x + 52) \<le> rnd x"
proof -
  let ?u = "(2::rat) powi ulp_exp x"
  have e: "ulp_exp x + 52 = ilog2 x" using assms(2) by (simp add: ulp_exp_def)
  have "of_int (2 ^ 52) * ?u = 2 powi (ulp_exp x + 52)" by (simp add: powi_split)
  also have "\<dots> \<le> x" unfolding e by (rule ilog2_bounds[OF assms(1)])
  finally have "of_int (2 ^ 52) \<le> x / ?u" using powi_pos[of "ulp_exp x"]
    by (simp add: pos_le_divide_eq)
  then have "2 ^ 52 \<le> round_half_even (x / ?u)" by (rule rhe_ge_int)
  then have "(of_int (2 ^ 52) :: rat) \<le> of_int (round_half_even (x / ?u))"
    by (simp only: of_int_le_iff)
  then have "of_int (2 ^ 52) * ?u \<le> of_int (round_half_even (x / ?u)) * ?u"
    using powi_pos[of "ulp_exp x"] by (simp only: mult_le_cancel_right_pos)
  then show ?thesis by (simp add: rnd_pos[OF assms(1)] powi_split)
qed

text \<open>Rounding never reverses the order of two numbers.\<close>

lemma rnd_mono_pos:
  assumes "0 < x" "x \<le> y"
  shows "rnd x \<le> rnd y"
proof -
  have y: "0 < y" using assms by simp
  have le: "ulp_exp x \<le> ulp_exp y"
    using ilog2_mono[OF assms] by (simp add: ulp_exp_def)
  show ?thesis
  proof (cases "ulp_exp x = ulp_exp y")
    case True
    let ?u = "(2::rat) powi ulp_exp y"
    have "x / ?u \<le> y / ?u" using assms(2) powi_pos[of "ulp_exp y"]
      by (simp add: divide_right_mono less_imp_le)
    then have "round_half_even (x / ?u) \<le> round_half_even (y / ?u)" by (rule rhe_mono)
    then have "(of_int (round_half_even (x / ?u)) :: rat) \<le> of_int (round_half_even (y / ?u))"
      by (simp only: of_int_le_iff)
    then have "of_int (round_half_even (x / ?u)) * ?u \<le> of_int (round_half_even (y / ?u)) * ?u"
      using powi_pos[of "ulp_exp y"] by (simp only: mult_le_cancel_right_pos)
    then show ?thesis by (simp add: rnd_pos[OF assms(1)] rnd_pos[OF y] True)
  next
    case False
    with le have lt: "ulp_exp x + 1 \<le> ulp_exp y" by simp
    then have "- 1022 \<le> ilog2 y" by (auto simp: ulp_exp_def max_def split: if_splits)
    then have "2 powi (ulp_exp y + 52) \<le> rnd y" by (rule rnd_lower[OF y])
    moreover have "rnd x \<le> 2 powi (ulp_exp x + 53)" by (rule rnd_upper[OF assms(1)])
    moreover have "(2::rat) powi (ulp_exp x + 53) \<le> 2 powi (ulp_exp y + 52)"
      by (rule powi_mono) (use lt in simp)
    ultimately show ?thesis by linarith
  qed
qed

lemma rnd_mono:
  assumes "0 \<le> x" "x \<le> y"
  shows "rnd x \<le> rnd y"
proof (cases "x = 0")
  case True
  then show ?thesis using rnd_nonneg[of y] assms by simp
next
  case False
  with assms show ?thesis by (intro rnd_mono_pos) simp_all
qed

text \<open>
  A number \<open>m * 2^k\<close> with \<open>0 \<le> m \<le> 2^53\<close> and \<open>k \<ge> -1074\<close> is a binary64 number: rounding
  leaves it as it is.
\<close>

lemma rnd_exact:
  assumes "0 \<le> m" "m \<le> 2 ^ 53" "- 1074 \<le> k"
  shows "rnd (of_int m * 2 powi k) = of_int m * 2 powi k"
proof (cases "m = 0")
  case True
  then show ?thesis by simp
next
  case False
  let ?x = "of_int m * (2::rat) powi k"
  from False assms have m: "0 < m" by simp
  then have x: "0 < ?x" using powi_pos[of k] by simp
  have "ilog2 ?x \<le> k + 53"
  proof -
    have "2 powi (ilog2 ?x) \<le> ?x" by (rule ilog2_bounds[OF x])
    also have "?x \<le> of_int (2 ^ 53) * 2 powi k"
      using assms(2) powi_pos[of k] by (simp only: mult_le_cancel_right_pos of_int_le_iff)
    also have "\<dots> = 2 powi (k + 53)" by (simp add: powi_split)
    also have "\<dots> < 2 powi (k + 53 + 1)" by (simp add: powi_split powi_pos)
    finally have "ilog2 ?x < k + 53 + 1" by (rule powi_less_cancel)
    then show ?thesis by simp
  qed
  show ?thesis
  proof (cases "ilog2 ?x = k + 53")
    case True
    have "2 powi (k + 53) \<le> ?x" using ilog2_bounds(1)[OF x] True by simp
    then have "of_int (2 ^ 53) * 2 powi k \<le> ?x" by (simp add: powi_split)
    then have "2 ^ 53 \<le> m" using powi_pos[of k]
      by (simp only: mult_le_cancel_right_pos of_int_le_iff)
    with assms(2) have meq: "m = 2 ^ 53" by simp
    have ue: "ulp_exp ?x = k + 1" using True assms(3) by (simp add: ulp_exp_def)
    have "?x / 2 powi ulp_exp ?x = ?x / 2 powi (k + 1)" by (simp only: ue)
    also have "\<dots> = of_int (2 ^ 52)" by (simp add: meq powi_split)
    finally have "rnd ?x = of_int (2 ^ 52) * 2 powi ulp_exp ?x"
      unfolding rnd_pos[OF x] by (simp only: rhe_of_int)
    also have "\<dots> = of_int (2 ^ 52) * 2 powi (k + 1)" by (simp only: ue)
    also have "\<dots> = ?x" by (simp add: meq powi_split)
    finally show ?thesis .
  next
    case False
    with \<open>ilog2 ?x \<le> k + 53\<close> have "ilog2 ?x \<le> k + 52" by simp
    with assms(3) have ue: "ulp_exp ?x \<le> k" by (simp add: ulp_exp_def)
    define u0 where "u0 = ulp_exp ?x"
    define d where "d = nat (k - u0)"
    have k: "k = u0 + int d" using ue by (simp add: d_def u0_def)
    have B: "?x / 2 powi u0 = of_int (m * 2 ^ d)"
      by (subst k) (simp add: powi_split)
    have C: "of_int (m * 2 ^ d) * 2 powi u0 = ?x"
      by (subst k) (simp add: powi_split)
    have "rnd ?x = of_int (round_half_even (?x / 2 powi u0)) * 2 powi u0"
      by (simp only: rnd_pos[OF x] u0_def)
    also have "\<dots> = of_int (m * 2 ^ d) * 2 powi u0"
      by (simp only: B rhe_of_int)
    also note C
    finally show ?thesis .
  qed
qed

lemma rnd_of_int:
  assumes "0 \<le> m" "m \<le> 2 ^ 53"
  shows "rnd (of_int m) = of_int m"
  using rnd_exact[OF assms, of 0] by simp

lemma rnd_abs_err:
  assumes "0 < x"
  shows "\<bar>rnd x - x\<bar> \<le> 2 powi ulp_exp x / 2"
proof -
  let ?u = "(2::rat) powi ulp_exp x"
  let ?r = "of_int (round_half_even (x / ?u)) :: rat"
  have "\<bar>?r - x / ?u\<bar> \<le> 1 / 2" by (rule rhe_err)
  then have "\<bar>?r - x / ?u\<bar> * ?u \<le> 1 / 2 * ?u"
    using powi_pos[of "ulp_exp x"] by (simp only: mult_le_cancel_right_pos)
  moreover have "\<bar>?r - x / ?u\<bar> * ?u = \<bar>?r * ?u - x\<bar>"
  proof -
    have "\<bar>?r - x / ?u\<bar> * ?u = \<bar>(?r - x / ?u) * ?u\<bar>"
      using powi_pos[of "ulp_exp x"] by (simp add: abs_mult abs_of_pos)
    also have "(?r - x / ?u) * ?u = ?r * ?u - x"
      using powi_pos[of "ulp_exp x"] by (simp add: left_diff_distrib)
    finally show ?thesis .
  qed
  ultimately show ?thesis by (simp add: rnd_pos[OF assms])
qed

text \<open>In the normal range the relative error of one rounding is at most \<open>2^(-53)\<close>.\<close>

lemma rnd_rel_err:
  assumes "2 powi (- 1022) \<le> x"
  shows "\<bar>rnd x - x\<bar> \<le> x / 2 ^ 53"
proof -
  have x: "0 < x" using assms powi_pos[of "- 1022"] by linarith
  have "(2::rat) powi (- 1022) < 2 powi (ilog2 x + 1)"
    using assms ilog2_bounds(2)[OF x] by linarith
  then have "- 1022 < ilog2 x + 1" by (rule powi_less_cancel)
  then have ue: "ulp_exp x = ilog2 x - 52" by (simp add: ulp_exp_def)
  have "2 powi ulp_exp x / 2 = 2 powi (ilog2 x) / (2::rat) ^ 53"
    unfolding ue by (simp add: power_int_diff)
  also have "\<dots> \<le> x / 2 ^ 53"
    using ilog2_bounds(1)[OF x] by (simp add: divide_right_mono)
  finally show ?thesis using rnd_abs_err[OF x] by linarith
qed


section \<open>Properties of the Python arithmetic\<close>

lemma py_bind_Inr [simp]: "py_bind (Inr x) f = f x"
  by (simp add: py_bind_def)

lemma py_bind_Inl [simp]: "py_bind (Inl e) f = Inl e"
  by (simp add: py_bind_def)

lemma rnd_pow2: "- 1074 \<le> k \<Longrightarrow> rnd (2 powi k) = 2 powi k"
  using rnd_exact[of 1 k] by simp

lemma rnd_le_pow2:
  assumes "0 \<le> x" "x \<le> 2 powi k" "- 1074 \<le> k"
  shows "rnd x \<le> 2 powi k"
  using rnd_mono[OF assms(1,2)] rnd_pow2[OF assms(3)] by simp

lemma fround_fin:
  assumes "0 \<le> x" "x \<le> 2 powi 1023"
  shows "fround x = Fin (rnd x)"
proof -
  have "rnd x \<le> 2 powi 1023" by (rule rnd_le_pow2[OF assms]) simp
  also have "(2::rat) powi 1023 < 2 powi 1024" by (simp add: power_int_def)
  finally have "\<not> 2 powi 1024 \<le> rnd x" by simp
  moreover have "\<not> rnd x \<le> - (2 powi 1024)"
    using rnd_nonneg[OF assms(1)] powi_pos[of 1024] by linarith
  ultimately show ?thesis by (simp add: fround_def Let_def)
qed

lemma int_le_pow2: "n \<le> 2 ^ 63 \<Longrightarrow> (of_int n :: rat) \<le> 2 powi 63"
proof -
  assume "n \<le> 2 ^ 63"
  then have "(of_int n :: rat) \<le> of_int (2 ^ 63)" by (simp only: of_int_le_iff)
  then show ?thesis by simp
qed

lemma pow63_le: "(2::rat) powi 63 \<le> 2 powi 1023"
  by (rule powi_mono) simp

lemma float_of_int_fin:
  assumes "0 \<le> n" "n \<le> 2 ^ 63"
  shows "float_of_int n = Inr (Fin (rnd (of_int n)))"
proof -
  have "fround (of_int n) = Fin (rnd (of_int n))"
    using assms int_le_pow2[OF assms(2)] pow63_le by (intro fround_fin) auto
  then show ?thesis by (simp add: float_of_int_def)
qed

lemma float_of_int_exact:
  assumes "0 \<le> n" "n \<le> 2 ^ 53"
  shows "float_of_int n = Inr (Fin (of_int n))"
proof -
  have "n \<le> 2 ^ 63" using assms(2) by simp
  from float_of_int_fin[OF assms(1) this] rnd_of_int[OF assms] show ?thesis by simp
qed

lemma rnd_int_le_pow63:
  assumes "0 \<le> n" "n \<le> 2 ^ 63"
  shows "rnd (of_int n) \<le> 2 powi 63"
  using assms int_le_pow2[OF assms(2)] by (intro rnd_le_pow2) auto

text \<open>The quotient of two non-negative ints below \<open>2^63\<close> is a finite float.\<close>

lemma int_truediv_fin:
  assumes "0 \<le> a" "a \<le> 2 ^ 63" "0 < b"
  shows "int_truediv a b = Inr (Fin (rnd (of_int a / of_int b)))"
proof -
  have b1: "(1::rat) \<le> of_int b" using assms(3) by simp
  have "(of_int a :: rat) / of_int b \<le> of_int a / 1"
    using assms(1) b1 by (intro divide_left_mono) auto
  also have "\<dots> \<le> 2 powi 63" using int_le_pow2[OF assms(2)] by simp
  also note pow63_le
  finally have "fround (of_int a / of_int b) = Fin (rnd (of_int a / of_int b))"
    using assms(1,3) by (intro fround_fin) auto
  then show ?thesis using assms(3) by (simp add: int_truediv_def)
qed

lemma rnd_one [simp]: "rnd 1 = 1"
  using rnd_of_int[of 1] by simp

lemma rnd_unit:
  assumes "0 \<le> v" "v \<le> 255"
  shows "0 \<le> rnd (of_int v / 255)" and "rnd (of_int v / 255) \<le> 1"
proof -
  have "(0::rat) \<le> of_int v / 255" using assms(1) by simp
  then show "0 \<le> rnd (of_int v / 255)" by (rule rnd_nonneg)
  have "(of_int v :: rat) / 255 \<le> 1" using assms(2) by simp
  with \<open>0 \<le> of_int v / 255\<close> have "rnd (of_int v / 255) \<le> rnd 1" by (rule rnd_mono)
  then show "rnd (of_int v / 255) \<le> 1" by simp
qed

section \<open>Properties of the glyph mapper\<close>

text \<open>
  The index for a brightness in \<open>[0, 255]\<close> and a ramp that fits in memory, written with the
  two roundings of the source.
\<close>

lemma gray_index_value:
  assumes "0 \<le> v" "v \<le> 255" "1 \<le> length chars" "int (length chars) \<le> 2 ^ 63"
  shows "gray_index v chars
           = Inr \<lfloor>rnd (rnd (of_int v / 255) * rnd (of_int (int (length chars) - 1)))\<rfloor>"
proof -
  let ?n = "int (length chars) - 1"
  let ?r = "rnd (of_int v / 255)"
  let ?k = "rnd (of_int ?n)"
  have n: "0 \<le> ?n" "?n \<le> 2 ^ 63" using assms(3,4) by linarith+
  have v63: "v \<le> 2 ^ 63" using assms(2) by simp
  have d: "int_truediv v 255 = Inr (Fin ?r)" using int_truediv_fin[OF assms(1) v63, of 255] by simp
  have c: "float_of_int ?n = Inr (Fin ?k)" by (rule float_of_int_fin[OF n])
  have "(0::rat) \<le> of_int ?n" using n(1) by (simp only: of_int_0_le_iff)
  then have k0: "0 \<le> ?k" by (rule rnd_nonneg)
  have k63: "?k \<le> 2 powi 63" by (rule rnd_int_le_pow63[OF n])
  note r = rnd_unit[OF assms(1,2)]
  have p0: "0 \<le> ?r * ?k" using r(1) k0 by simp
  have "?r * ?k \<le> 1 * ?k" using r(2) k0 by (intro mult_right_mono)
  then have "?r * ?k \<le> 2 powi 1023" using k63 pow63_le by linarith
  then have m: "fround (?r * ?k) = Fin (rnd (?r * ?k))" by (rule fround_fin[OF p0])
  have "0 \<le> rnd (?r * ?k)" by (rule rnd_nonneg[OF p0])
  then show ?thesis
    by (simp only: gray_index_def d c py_bind_Inr float_mul.simps m py_int.simps if_True)
qed

lemma distinct_ramp: "distinct ASCII_CHARS"
  by (simp add: ASCII_CHARS_def)


text \<open>
  For a ramp of at most \<open>2^53\<close> characters the float \<^verbatim>\<open>len(chars) - 1\<close> is exact, the index
  lies in the ramp and the lookup succeeds.
\<close>

lemma gray_index_in_ramp:
  assumes "0 \<le> w" "w \<le> 255" "1 \<le> length chars" "int (length chars) \<le> 2 ^ 53"
  shows "gray_index w chars = Inr \<lfloor>rnd (rnd (of_int w / 255) * of_int (int (length chars) - 1))\<rfloor>"
    and "0 \<le> \<lfloor>rnd (rnd (of_int w / 255) * of_int (int (length chars) - 1))\<rfloor>"
    and "\<lfloor>rnd (rnd (of_int w / 255) * of_int (int (length chars) - 1))\<rfloor> \<le> int (length chars) - 1"
    and "get_char_for_gray w chars
           = Inr (chars ! nat \<lfloor>rnd (rnd (of_int w / 255) * of_int (int (length chars) - 1))\<rfloor>)"
proof -
  let ?n = "int (length chars) - 1"
  let ?r = "rnd (of_int w / 255)"
  have n: "0 \<le> ?n" "?n \<le> 2 ^ 53" using assms(3,4) by linarith+
  have "(2::int) ^ 53 \<le> 2 ^ 63" by simp
  with assms(4) have len: "int (length chars) \<le> 2 ^ 63" by linarith
  have kn: "rnd (of_int ?n) = of_int ?n" by (rule rnd_of_int[OF n])
  have nn: "(0::rat) \<le> of_int ?n" using n(1) by (simp only: of_int_0_le_iff)
  show idx: "gray_index w chars = Inr \<lfloor>rnd (?r * of_int ?n)\<rfloor>"
    using gray_index_value[OF assms(1,2,3) len] by (simp only: kn)
  note r = rnd_unit[OF assms(1,2)]
  have p0: "0 \<le> ?r * of_int ?n" using r(1) nn by simp
  have "?r * of_int ?n \<le> 1 * of_int ?n" using r(2) nn by (intro mult_right_mono)
  then have "?r * of_int ?n \<le> of_int ?n" by simp
  with p0 have "rnd (?r * of_int ?n) \<le> rnd (of_int ?n)" by (rule rnd_mono)
  then have up: "rnd (?r * of_int ?n) \<le> of_int ?n" by (simp only: kn)
  have "0 \<le> rnd (?r * of_int ?n)" by (rule rnd_nonneg[OF p0])
  then show lo: "0 \<le> \<lfloor>rnd (?r * of_int ?n)\<rfloor>" by simp
  show hi: "\<lfloor>rnd (?r * of_int ?n)\<rfloor> \<le> ?n" using up by (simp only: floor_le_iff)
  show "get_char_for_gray w chars = Inr (chars ! nat \<lfloor>rnd (?r * of_int ?n)\<rfloor>)"
    using lo hi by (simp add: get_char_for_gray_def idx py_getitem_def Let_def)
qed



text \<open>
  C5, as the source has it. The default ramp is the fixed sequence of the twelve distinct
  characters \<^verbatim>\<open>. : - = + * # % @ / \ |\<close>, in the order the source declares as dark to light:
  the literal spells the backslash with an escape, so its thirteen source characters denote
  twelve.
\<close>

theorem default_ramp_twelve:
  "ASCII_CHARS = [CHR ''.'', CHR '':'', CHR ''-'', CHR ''='', CHR ''+'', CHR ''*'', CHR ''#'',
                  CHR ''%'', CHR ''@'', CHR ''/'', CHR 0x5C, CHR ''|'']
   \<and> length ASCII_CHARS = 12 \<and> distinct ASCII_CHARS"
  by (simp add: ASCII_CHARS_def)

text \<open>C5 as stated, a ramp of thirteen characters, does not hold.\<close>

theorem default_ramp_not_thirteen: "length ASCII_CHARS \<noteq> 13"
  by (simp add: ASCII_CHARS_def)

text \<open>
  C6. The glyph mapper is monotonic: for brightness values \<open>v1 \<le> v2\<close> in \<open>[0, 255]\<close> and any
  non-empty ramp (of at most \<open>2^63\<close> characters, the longest sequence Python has), both indices
  are computed and the index of \<open>v1\<close> is at most the index of \<open>v2\<close>.
\<close>

theorem glyph_mapper_monotone:
  assumes "0 \<le> v1" "v1 \<le> v2" "v2 \<le> 255" "1 \<le> length chars" "int (length chars) \<le> 2 ^ 63"
  shows "\<exists>i j. gray_index v1 chars = Inr i \<and> gray_index v2 chars = Inr j \<and> i \<le> j"
proof -
  let ?k = "rnd (of_int (int (length chars) - 1))"
  have v1: "0 \<le> v1" "v1 \<le> 255" and v2: "0 \<le> v2" "v2 \<le> 255" using assms(1-3) by linarith+
  have "0 \<le> int (length chars) - 1" using assms(4) by linarith
  then have "(0::rat) \<le> of_int (int (length chars) - 1)" by (simp only: of_int_0_le_iff)
  then have k0: "0 \<le> ?k" by (rule rnd_nonneg)
  have q0: "(0::rat) \<le> of_int v1 / 255" using assms(1) by simp
  have "(of_int v1 :: rat) / 255 \<le> of_int v2 / 255" using assms(2) by simp
  with q0 have "rnd (of_int v1 / 255) \<le> rnd (of_int v2 / 255)" by (rule rnd_mono)
  then have "rnd (of_int v1 / 255) * ?k \<le> rnd (of_int v2 / 255) * ?k"
    using k0 by (rule mult_right_mono)
  moreover have "0 \<le> rnd (of_int v1 / 255) * ?k" using rnd_unit(1)[OF v1] k0 by simp
  ultimately have "rnd (rnd (of_int v1 / 255) * ?k) \<le> rnd (rnd (of_int v2 / 255) * ?k)"
    by (intro rnd_mono)
  then have "\<lfloor>rnd (rnd (of_int v1 / 255) * ?k)\<rfloor> \<le> \<lfloor>rnd (rnd (of_int v2 / 255) * ?k)\<rfloor>"
    by (rule floor_mono)
  then show ?thesis
    by (simp only: gray_index_value[OF v1 assms(4,5)] gray_index_value[OF v2 assms(4,5)]) simp
qed

theorem glyph_mapper_monotone_witness:
  "\<exists>i j. gray_index 100 ASCII_CHARS = Inr i \<and> gray_index 200 ASCII_CHARS = Inr j \<and> i \<le> j"
  using glyph_mapper_monotone[of 100 200 ASCII_CHARS] by (simp add: ASCII_CHARS_def)


section \<open>Properties of the frame renderer\<close>

lemma make_even_even: "even (make_even n)"
  by (auto simp: make_even_def)

lemma make_even_bounds: "n \<le> make_even n \<and> make_even n \<le> n + 1"
  by (simp add: make_even_def)

lemma make_even_div: "make_even n = 2 * ((n + 1) div 2)"
  by (simp add: make_even_def) presburger

text \<open>The column count of a non-empty list of lines is the length of its longest line.\<close>

lemma max_cols_nonempty:
  assumes "lines \<noteq> []"
  shows "max_cols lines = Max ((\<lambda>l. int (length l)) ` set lines)"
proof -
  obtain l ls where ls: "lines = l # ls" using assms by (cases lines) auto
  have "max_cols lines = fold max (map (\<lambda>l. int (length l)) ls) (int (length l))"
    by (simp add: max_cols_def ls)
  also have "\<dots> = Max (set (int (length l) # map (\<lambda>l. int (length l)) ls))"
    by (rule Max.set_eq_fold[symmetric])
  also have "set (int (length l) # map (\<lambda>l. int (length l)) ls) = (\<lambda>l. int (length l)) ` set lines"
    by (simp add: ls)
  finally show ?thesis .
qed

lemma max_cols_uniform:
  assumes "lines \<noteq> []" "\<forall>l\<in>set lines. int (length l) = cols"
  shows "max_cols lines = cols"
proof -
  from assms have "(\<lambda>l. int (length l)) ` set lines = {cols}" by (cases lines) auto
  then show ?thesis by (simp add: max_cols_nonempty[OF assms(1)])
qed

lemma max_cols_nonneg: "0 \<le> max_cols lines"
proof (cases lines)
  case Nil
  then show ?thesis by (simp add: max_cols_def)
next
  case (Cons l ls)
  then have ne: "lines \<noteq> []" by simp
  have "0 \<le> int (length l)" by simp
  also have "int (length l) \<le> Max ((\<lambda>l. int (length l)) ` set lines)"
    by (rule Max_ge) (simp_all add: Cons)
  finally show ?thesis by (simp add: max_cols_nonempty[OF ne])
qed

lemma max_cols_pos:
  assumes "l \<in> set lines" "l \<noteq> []"
  shows "0 < max_cols lines"
proof -
  have ne: "lines \<noteq> []" using assms(1) by auto
  have "0 < int (length l)" using assms(2) by simp
  also have "int (length l) \<le> Max ((\<lambda>l. int (length l)) ` set lines)"
    using assms(1) by (intro Max_ge) auto
  finally show ?thesis by (simp add: max_cols_nonempty[OF ne])
qed

lemma char_size_pos: "0 < fst (char_size fnt) \<and> 0 < snd (char_size fnt)"
  by (auto simp: char_size_def Let_def split: prod.splits)

lemma char_size_fallback:
  assumes "bbox_M fnt = (x0, y0, x1, y1)"
  shows "char_size fnt = (if x1 - x0 \<le> 0 then 8 else x1 - x0, if y1 - y0 \<le> 0 then 16 else y1 - y0)"
  using assms by (simp add: char_size_def Let_def)

lemma image_size_eq:
  "image_size lines fnt padding =
     (make_even (fst (char_size fnt) * max_cols lines + padding * 2),
      make_even (snd (char_size fnt) * max 1 (int (length lines)) + padding * 2))"
  by (simp add: image_size_def Let_def split: prod.splits)

lemma render_ok:
  assumes "0 \<le> padding"
  shows "render_ascii_to_image lines fnt bg fg padding =
           Inr \<lparr>img_width = fst (image_size lines fnt padding),
                 img_height = snd (image_size lines fnt padding), img_bg = bg,
                 img_text = draw_lines padding padding (snd (char_size fnt)) fg lines\<rparr>"
    and "padding * 2 \<le> fst (image_size lines fnt padding)"
    and "padding * 2 < snd (image_size lines fnt padding)"
proof -
  note cs = char_size_pos[of fnt]
  have "0 \<le> fst (char_size fnt) * max_cols lines"
    using cs max_cols_nonneg[of lines] by simp
  then have w: "padding * 2 \<le> fst (char_size fnt) * max_cols lines + padding * 2" by simp
  have "0 < snd (char_size fnt) * max 1 (int (length lines))"
    using cs by (intro mult_pos_pos) auto
  then have h: "padding * 2 < snd (char_size fnt) * max 1 (int (length lines)) + padding * 2" by simp
  show W: "padding * 2 \<le> fst (image_size lines fnt padding)"
    using w make_even_bounds[of "fst (char_size fnt) * max_cols lines + padding * 2"]
    by (simp add: image_size_eq)
  show H: "padding * 2 < snd (image_size lines fnt padding)"
    using h make_even_bounds[of "snd (char_size fnt) * max 1 (int (length lines)) + padding * 2"]
    by (simp add: image_size_eq)
  from W H assms show "render_ascii_to_image lines fnt bg fg padding =
           Inr \<lparr>img_width = fst (image_size lines fnt padding),
                 img_height = snd (image_size lines fnt padding), img_bg = bg,
                 img_text = draw_lines padding padding (snd (char_size fnt)) fg lines\<rparr>"
    by (cases "image_size lines fnt padding") (auto simp: render_ascii_to_image_def)
qed

text \<open>
  C3. For a fixed font, with glyph cell \<open>char_w\<close> by \<open>char_h\<close> (the measured width and height of
  "M", replaced by 8 and by 16 when not positive), a fixed padding (not negative) and a glyph
  grid of \<open>rows \<ge> 1\<close> rows of \<open>cols\<close> characters each, the file-mode renderer returns an image of
  width \<open>char_w * cols + 2 * padding\<close> and height \<open>char_h * rows + 2 * padding\<close>, each rounded up
  to the next even number. Both are even, and any other grid of the same shape gives the same
  size.
\<close>

theorem renderer_canvas_size:
  assumes "bbox_M fnt = (x0, y0, x1, y1)"
    and "char_w = (if x1 - x0 \<le> 0 then 8 else x1 - x0)"
    and "char_h = (if y1 - y0 \<le> 0 then 16 else y1 - y0)"
    and "0 \<le> padding"
    and "lines \<noteq> []" and "\<forall>l\<in>set lines. int (length l) = cols"
  shows "\<exists>img. render_ascii_to_image lines fnt bg fg padding = Inr img
           \<and> img_width img = 2 * ((char_w * cols + 2 * padding + 1) div 2)
           \<and> img_height img = 2 * ((char_h * int (length lines) + 2 * padding + 1) div 2)
           \<and> char_w * cols + 2 * padding \<le> img_width img
           \<and> img_width img \<le> char_w * cols + 2 * padding + 1
           \<and> char_h * int (length lines) + 2 * padding \<le> img_height img
           \<and> img_height img \<le> char_h * int (length lines) + 2 * padding + 1
           \<and> even (img_width img) \<and> even (img_height img)
           \<and> (\<forall>lines' bg' fg'.
                 length lines' = length lines \<and> (\<forall>l\<in>set lines'. int (length l) = cols) \<longrightarrow>
                 (\<exists>img'. render_ascii_to_image lines' fnt bg' fg' padding = Inr img'
                    \<and> img_width img' = img_width img \<and> img_height img' = img_height img))"
proof -
  have cs: "char_size fnt = (char_w, char_h)"
    using char_size_fallback[OF assms(1)] assms(2,3) by simp
  have rows: "max 1 (int (length ls)) = int (length lines)" if "length ls = length lines" for ls :: "string list"
    using that assms(5) by (cases lines) auto
  have size: "image_size ls fnt padding
      = (make_even (char_w * cols + 2 * padding), make_even (char_h * int (length lines) + 2 * padding))"
    if "length ls = length lines" "\<forall>l\<in>set ls. int (length l) = cols" for ls
  proof -
    from that(1) assms(5) have "ls \<noteq> []" by auto
    from max_cols_uniform[OF this that(2)] rows[OF that(1)] show ?thesis
      by (simp add: image_size_eq cs mult.commute)
  qed
  let ?w = "make_even (char_w * cols + 2 * padding)"
  let ?h = "make_even (char_h * int (length lines) + 2 * padding)"
  have r: "\<exists>img. render_ascii_to_image ls fnt b f padding = Inr img
              \<and> img_width img = ?w \<and> img_height img = ?h"
    if "length ls = length lines" "\<forall>l\<in>set ls. int (length l) = cols" for ls b f
    using render_ok(1)[OF assms(4), of ls fnt b f] size[OF that] by simp
  from r[of lines bg fg] assms(6) obtain img where
    img: "render_ascii_to_image lines fnt bg fg padding = Inr img"
      "img_width img = ?w" "img_height img = ?h" by auto
  have "\<forall>lines' bg' fg'.
          length lines' = length lines \<and> (\<forall>l\<in>set lines'. int (length l) = cols) \<longrightarrow>
          (\<exists>img'. render_ascii_to_image lines' fnt bg' fg' padding = Inr img'
             \<and> img_width img' = img_width img \<and> img_height img' = img_height img)"
    using r img(2,3) by simp
  moreover have "img_width img = 2 * ((char_w * cols + 2 * padding + 1) div 2)"
    and "img_height img = 2 * ((char_h * int (length lines) + 2 * padding + 1) div 2)"
    by (simp_all only: img(2,3) make_even_div)
  moreover note make_even_bounds[of "char_w * cols + 2 * padding"]
    make_even_bounds[of "char_h * int (length lines) + 2 * padding"]
    make_even_even[of "char_w * cols + 2 * padding"]
    make_even_even[of "char_h * int (length lines) + 2 * padding"]
  ultimately show ?thesis using img by (intro exI[of _ img]) simp
qed

theorem renderer_canvas_size_witness:
  "\<exists>img. render_ascii_to_image [''ab'', ''cd'', ''ef''] \<lparr>bbox_M = (0, 3, 7, 12)\<rparr> (0, 0, 0) (255, 255, 255) 6
           = Inr img \<and> img_width img = 26 \<and> img_height img = 40"
  using renderer_canvas_size[where fnt = "\<lparr>bbox_M = (0, 3, 7, 12)\<rparr>" and ?x0.0 = 0 and ?y0.0 = 3
          and ?x1.0 = 7 and ?y1.0 = 12 and char_w = 7 and char_h = 9 and padding = 6
          and lines = "[''ab'', ''cd'', ''ef'']" and cols = 2 and bg = "(0, 0, 0)"
          and fg = "(255, 255, 255)"]
  by auto

text \<open>
  C10, as the source has it. For every list of lines, empty and ragged ones included, and every
  padding that is not negative, the file-mode renderer returns an image. Its row count is
  \<open>max(1, number of lines)\<close>; its column count is the length of the longest line, and 1 for the
  empty list, so 0 when every line is empty. Both pixel dimensions are even; the height is
  positive and the width is at least twice the padding, hence positive whenever the padding is
  positive, the list is empty or some line is not empty.
\<close>

theorem renderer_total:
  assumes "0 \<le> padding" and "char_size fnt = (char_w, char_h)"
  shows "\<exists>img. render_ascii_to_image lines fnt bg fg padding = Inr img
           \<and> img_width img = 2 * ((char_w * max_cols lines + 2 * padding + 1) div 2)
           \<and> img_height img = 2 * ((char_h * max 1 (int (length lines)) + 2 * padding + 1) div 2)
           \<and> max_cols lines = (if lines = [] then 1 else Max ((\<lambda>l. int (length l)) ` set lines))
           \<and> even (img_width img) \<and> even (img_height img)
           \<and> 0 < img_height img \<and> 2 * padding \<le> img_width img
           \<and> (0 < padding \<or> lines = [] \<or> (\<exists>l\<in>set lines. l \<noteq> []) \<longrightarrow> 0 < img_width img)"
proof -
  let ?img = "\<lparr>img_width = fst (image_size lines fnt padding),
               img_height = snd (image_size lines fnt padding), img_bg = bg,
               img_text = draw_lines padding padding (snd (char_size fnt)) fg lines\<rparr>"
  note R = render_ok(1)[OF assms(1), of lines fnt bg fg] render_ok(2)[OF assms(1), of lines fnt]
    render_ok(3)[OF assms(1), of lines fnt]
  have cw: "0 < char_w" using char_size_pos[of fnt] assms(2) by simp
  have w: "img_width ?img = make_even (char_w * max_cols lines + 2 * padding)"
    and h: "img_height ?img = make_even (char_h * max 1 (int (length lines)) + 2 * padding)"
    by (simp_all add: image_size_eq assms(2) mult.commute)
  have mc: "max_cols lines = (if lines = [] then 1 else Max ((\<lambda>l. int (length l)) ` set lines))"
    using max_cols_nonempty[of lines] by (simp add: max_cols_def)
  have pos: "0 < img_width ?img" if "0 < padding \<or> lines = [] \<or> (\<exists>l\<in>set lines. l \<noteq> [])"
  proof -
    from that consider "0 < padding" | "lines = []" | l where "l \<in> set lines" "l \<noteq> []" by auto
    then show ?thesis
    proof cases
      case 1
      then show ?thesis using R(2) by simp
    next
      case 2
      then have "0 < char_w * max_cols lines" using cw by (simp add: max_cols_def)
      then show ?thesis
        using assms(1) make_even_bounds[of "char_w * max_cols lines + 2 * padding"] by (simp only: w) linarith
    next
      case 3
      then have "0 < char_w * max_cols lines" using cw max_cols_pos by (intro mult_pos_pos)
      then show ?thesis
        using assms(1) make_even_bounds[of "char_w * max_cols lines + 2 * padding"] by (simp only: w) linarith
    qed
  qed
  have "img_width ?img = 2 * ((char_w * max_cols lines + 2 * padding + 1) div 2)"
    and "img_height ?img = 2 * ((char_h * max 1 (int (length lines)) + 2 * padding + 1) div 2)"
    by (simp_all only: w h make_even_div)
  moreover have "even (img_width ?img)" "even (img_height ?img)"
    by (simp_all only: w h make_even_even)
  moreover have "0 < img_height ?img" "2 * padding \<le> img_width ?img"
    using R(2,3) assms(1) by simp_all
  ultimately show ?thesis using R(1) mc pos by (intro exI[of _ ?img]) (simp del: image.simps)
qed

theorem renderer_total_witness:
  "\<exists>img. render_ascii_to_image [''abc'', '''', ''de''] \<lparr>bbox_M = (0, 0, 0, 0)\<rparr> (0, 0, 0) (255, 255, 255) 6
            = Inr img \<and> img_width img = 36 \<and> img_height img = 60"
proof -
  have m: "Max ((\<lambda>l. int (length l)) ` set [''abc'', '''', ''de'']) = 3" by simp
  show ?thesis
    using renderer_total[where padding = 6 and fnt = "\<lparr>bbox_M = (0, 0, 0, 0)\<rparr>" and char_w = 8
            and char_h = 16 and lines = "[''abc'', '''', ''de'']" and bg = "(0, 0, 0)"
            and fg = "(255, 255, 255)"]
    by (auto simp: char_size_def m)
qed

text \<open>
  C10 as stated does not hold: for the one-line list holding the empty line the column count
  is 0, not at least 1, and with padding 0 the image is 0 pixels wide.
\<close>

theorem renderer_empty_line_has_no_column:
  "max_cols [''''] = 0 \<and> image_size [''''] \<lparr>bbox_M = (0, 0, 8, 16)\<rparr> 0 = (0, 16)"
  by (simp add: max_cols_def image_size_def char_size_def make_even_def)


section \<open>Properties of the luminance sampler\<close>

lemma fround_nonneg_cases:
  assumes "0 \<le> x"
  shows "fround x = Fin (rnd x) \<or> fround x = PInf"
  using rnd_nonneg[OF assms] powi_pos[of 1024]
  by (auto simp: fround_def Let_def)

lemma rnd_between:
  assumes "2 powi a \<le> x" "x \<le> 2 powi b" "- 1074 \<le> a" "- 1074 \<le> b"
  shows "2 powi a \<le> rnd x" and "rnd x \<le> 2 powi b"
proof -
  have x0: "0 \<le> x" using assms(1) powi_pos[of a] by linarith
  have "rnd (2 powi a) \<le> rnd x" using assms(1) powi_pos[of a] by (intro rnd_mono) auto
  then show "2 powi a \<le> rnd x" by (simp only: rnd_pow2[OF assms(3)])
  show "rnd x \<le> 2 powi b" by (rule rnd_le_pow2[OF x0 assms(2,4)])
qed

lemma quotient_between:
  fixes x y :: rat
  assumes "2 powi a \<le> x" "x \<le> 2 powi b" "2 powi c \<le> y" "y \<le> 2 powi d"
  shows "2 powi (a - d) \<le> x / y" and "x / y \<le> 2 powi (b - c)"
proof -
  have y: "0 < y" using assms(3) powi_pos[of c] by linarith
  have x: "0 < x" using assms(1) powi_pos[of a] by linarith
  have "2 powi (a - d) = 2 powi a / (2::rat) powi d" by (simp add: power_int_diff)
  also have "\<dots> \<le> x / y"
    using assms(1,4) y x by (intro frac_le) auto
  finally show "2 powi (a - d) \<le> x / y" .
  have "x / y \<le> 2 powi b / 2 powi c"
    using assms(2,3) x powi_pos[of c] powi_pos[of b] by (intro frac_le) auto
  also have "\<dots> = (2::rat) powi (b - c)" by (simp add: power_int_diff)
  finally show "x / y \<le> 2 powi (b - c)" .
qed

lemma int_between:
  assumes "1 \<le> n" "n \<le> 2 ^ 31"
  shows "2 powi 0 \<le> (of_int n :: rat)" and "(of_int n :: rat) \<le> 2 powi 31"
proof -
  show "2 powi 0 \<le> (of_int n :: rat)" using assms(1) by simp
  have "(of_int n :: rat) \<le> of_int (2 ^ 31)" using assms(2) by (simp only: of_int_le_iff)
  then show "(of_int n :: rat) \<le> 2 powi 31" by simp
qed

lemma fround_between:
  assumes "2 powi a \<le> x" "x \<le> 2 powi b" "b \<le> 1023"
  shows "fround x = Fin (rnd x)"
proof -
  have "0 \<le> x" using assms(1) powi_pos[of a] by linarith
  moreover have "x \<le> 2 powi 1023" using assms(2) powi_mono[OF assms(3)] by linarith
  ultimately show ?thesis by (rule fround_fin)
qed

text \<open>
  The float \<^verbatim>\<open>h / ((w / cols) / scale)\<close> for sizes up to \<open>2^31\<close> and a scale between
  \<open>2^(-64)\<close> and \<open>2^64\<close>: no operation overflows, underflows to zero or divides by zero.
\<close>

lemma row_quotient_in_range:
  assumes "1 \<le> h" "h \<le> 2 ^ 31" "1 \<le> w" "w \<le> 2 ^ 31" "1 \<le> cols" "cols \<le> 2 ^ 31"
    and "2 powi (- 64) \<le> s" "s \<le> 2 powi 64"
  shows "row_quotient h w cols (Fin s)
           = Inr (Fin (rnd (of_int h / rnd (rnd (of_int w / of_int cols) / s))))"
proof -
  let ?tw = "rnd (of_int w / of_int cols)"
  let ?th = "rnd (?tw / s)"
  note W = int_between[OF assms(3,4)] and C = int_between[OF assms(5,6)]
    and H = int_between[OF assms(1,2)]
  note q1 = quotient_between[OF W C]
  have tw: "int_truediv w cols = Inr (Fin ?tw)"
    using fround_between[OF q1] assms(5) by (simp add: int_truediv_def)
  note r1 = rnd_between[OF q1]
  have b1: "2 powi (0 - 31) \<le> ?tw" "?tw \<le> 2 powi (31 - 0)" using r1 by simp_all
  note q2 = quotient_between[OF b1 assms(7,8)]
  have s0: "s \<noteq> 0" using assms(7) powi_pos[of "- 64"] by linarith
  have th: "float_truediv (Fin ?tw) (Fin s) = Inr (Fin ?th)"
    using fround_between[OF q2] s0 by simp
  have b2: "2 powi (0 - 31 - 64) \<le> ?th" "?th \<le> 2 powi (31 - 0 - - 64)"
    using rnd_between[OF q2] by simp_all
  have th0: "?th \<noteq> 0" using b2(1) powi_pos[of "0 - 31 - 64"] by linarith
  have h53: "h \<le> 2 ^ 53" using assms(2) by simp
  have hf: "float_of_int h = Inr (Fin (of_int h))"
    using float_of_int_exact[OF _ h53] assms(1) by simp
  note q3 = quotient_between[OF H b2]
  have fin: "float_truediv (Fin (of_int h)) (Fin ?th) = Inr (Fin (rnd (of_int h / ?th)))"
    using fround_between[OF q3] th0 by simp
  show ?thesis by (simp only: row_quotient_def tw th hf py_bind_Inr fin)
qed

text \<open>Where the quotient exists it is not negative.\<close>

lemma row_quotient_nonneg:
  assumes "1 \<le> h" "1 \<le> w" "1 \<le> cols" "0 < s"
    and "row_quotient h w cols (Fin s) = Inr (Fin q)"
  shows "0 \<le> q"
proof -
  have wc: "(0::rat) \<le> of_int w / of_int cols" using assms(2,3) by simp
  have hh: "(0::rat) \<le> of_int h" using assms(1) by simp
  from assms(5) obtain tw where tw: "int_truediv w cols = Inr tw"
    by (cases "int_truediv w cols") (auto simp: row_quotient_def)
  then have twv: "tw = Fin (rnd (of_int w / of_int cols))"
    using fround_nonneg_cases[OF wc] by (auto simp: int_truediv_def split: if_splits pyfloat.splits)
  let ?tw = "rnd (of_int w / of_int cols)"
  have tw0: "0 \<le> ?tw / s" using rnd_nonneg[OF wc] assms(4) by simp
  have s0: "s \<noteq> 0" using assms(4) by simp
  have thv: "float_truediv tw (Fin s) = Inr (fround (?tw / s))"
    using s0 by (simp add: twv)
  have rq: "row_quotient h w cols (Fin s)
      = py_bind (float_of_int h) (\<lambda>hf. float_truediv hf (fround (?tw / s)))"
    by (simp only: row_quotient_def tw thv py_bind_Inr)
  with assms(5) obtain hf where hf: "float_of_int h = Inr hf"
    by (cases "float_of_int h") auto
  then have hfv: "hf = Fin (rnd (of_int h))"
    using fround_nonneg_cases[OF hh] by (auto simp: float_of_int_def split: pyfloat.splits)
  have q: "float_truediv (Fin (rnd (of_int h))) (fround (?tw / s)) = Inr (Fin q)"
    using assms(5) by (simp only: rq hf hfv py_bind_Inr)
  from fround_nonneg_cases[OF tw0] show ?thesis
  proof
    assume f: "fround (?tw / s) = Fin (rnd (?tw / s))"
    have d0: "0 \<le> rnd (of_int h) / rnd (?tw / s)"
      using rnd_nonneg[OF hh] rnd_nonneg[OF tw0] by simp
    from q f have "fround (rnd (of_int h) / rnd (?tw / s)) = Fin q"
      by (simp split: if_splits)
    with fround_nonneg_cases[OF d0] have "q = rnd (rnd (of_int h) / rnd (?tw / s))" by auto
    then show ?thesis using rnd_nonneg[OF d0] by simp
  next
    assume "fround (?tw / s) = PInf"
    with q show ?thesis by simp
  qed
qed

lemma py_map_Inr:
  assumes "\<forall>x\<in>set xs. \<exists>y. f x = Inr y \<and> P y"
  shows "\<exists>ys. py_map f xs = Inr ys \<and> length ys = length xs \<and> (\<forall>y\<in>set ys. P y)"
  using assms
proof (induction xs)
  case Nil
  then show ?case by simp
next
  case (Cons x xs)
  then obtain y ys where "f x = Inr y" "P y" "py_map f xs = Inr ys" "length ys = length xs"
    "\<forall>y\<in>set ys. P y" by auto
  then show ?case by simp
qed


lemma sample_rows_value:
  assumes "1 \<le> h" "1 \<le> w" "1 \<le> cols" "0 < s"
    and "row_quotient h w cols (Fin s) = Inr (Fin q)"
  shows "sample_rows h w cols (Fin s) = Inr (max 1 \<lfloor>q\<rfloor>)"
  using row_quotient_nonneg[OF assms] by (simp add: sample_rows_def assms(5))

text \<open>Once the row count is known, the comprehension builds a grid of that many rows.\<close>

lemma lines_shape:
  assumes "sample_rows h w cols scale = Inr n" "1 \<le> n" "1 \<le> h" "1 \<le> w" "1 \<le> cols"
    and "1 \<le> length chars" "int (length chars) \<le> 2 ^ 53"
  shows "\<exists>lines. frame_to_ascii_lines resize h w cols scale chars = Inr lines
           \<and> int (length lines) = n \<and> (\<forall>l\<in>set lines. int (length l) = cols)"
proof -
  have px: "0 \<le> uint p" "uint p \<le> 255" for p :: "8 word"
    using uint_lt2p[of p] by simp_all
  have cell: "\<exists>c. get_char_for_gray (uint (resize cols n r k)) chars = Inr c \<and> True" for r k
    using gray_index_in_ramp(4)[OF px assms(6,7)] by simp
  have row: "\<exists>l. py_map (\<lambda>c. get_char_for_gray (uint (resize cols n r c)) chars) [0..<nat cols] = Inr l
               \<and> int (length l) = cols" for r
  proof -
    from py_map_Inr[of "[0..<nat cols]" "\<lambda>c. get_char_for_gray (uint (resize cols n r c)) chars" "\<lambda>_. True"]
      cell
    obtain l where "py_map (\<lambda>c. get_char_for_gray (uint (resize cols n r c)) chars) [0..<nat cols] = Inr l"
      "length l = length [0..<nat cols]" by blast
    then show ?thesis using assms(5) by auto
  qed
  from py_map_Inr[of "[0..<nat n]"
      "\<lambda>r. py_map (\<lambda>c. get_char_for_gray (uint (resize cols n r c)) chars) [0..<nat cols]"
      "\<lambda>l. int (length l) = cols"] row
  obtain lines where
    L: "py_map (\<lambda>r. py_map (\<lambda>c. get_char_for_gray (uint (resize cols n r c)) chars) [0..<nat cols])
          [0..<nat n] = Inr lines"
      "length lines = length [0..<nat n]" "\<forall>l\<in>set lines. int (length l) = cols"
    by blast
  have "frame_to_ascii_lines resize h w cols scale chars = Inr lines"
    using assms(3,4,5) by (simp add: frame_to_ascii_lines_def assms(1) L(1))
  moreover have "int (length lines) = n" using L(2) assms(2) by simp
  ultimately show ?thesis using L(3) by blast
qed

lemma default_scale_value:
  shows "default_scale = Fin (rnd (43 / 100))"
  and "2 powi (- 64) \<le> rnd (43 / 100)" and "rnd (43 / 100) \<le> 2 powi 64" and "0 < rnd (43 / 100)"
proof -
  have lo: "(2::rat) powi (- 2) \<le> 43 / 100" and hi: "(43 / 100 :: rat) \<le> 2 powi (- 1)"
    by (simp_all add: power_int_minus)
  show "default_scale = Fin (rnd (43 / 100))"
    unfolding default_scale_def by (rule fround_between[OF lo hi]) simp
  note b = rnd_between[OF lo hi]
  have "(2::rat) powi (- 64) \<le> 2 powi (- 2)" by (rule powi_mono) simp
  with b(1) show "2 powi (- 64) \<le> rnd (43 / 100)" by simp
  have "(2::rat) powi (- 1) \<le> 2 powi 64" by (rule powi_mono) simp
  with b(2) show "rnd (43 / 100) \<le> 2 powi 64" by simp
  show "0 < rnd (43 / 100)" using b(1) powi_pos[of "- 2"] by simp
qed

text \<open>Every frame of a size up to \<open>2^31\<close> yields a glyph grid with the default scale and ramp.\<close>

lemma default_lines:
  assumes "1 \<le> h" "h \<le> 2 ^ 31" "1 \<le> w" "w \<le> 2 ^ 31" "1 \<le> cols" "cols \<le> 2 ^ 31"
  shows "\<exists>lines. frame_to_ascii_lines resize h w cols default_scale ASCII_CHARS = Inr lines
           \<and> int (length lines)
               = max 1 \<lfloor>rnd (of_int h / rnd (rnd (of_int w / of_int cols) / rnd (43 / 100)))\<rfloor>
           \<and> (\<forall>l\<in>set lines. int (length l) = cols)"
proof -
  note D = default_scale_value
  note Q = row_quotient_in_range[OF assms D(2,3)]
  note S = sample_rows_value[OF assms(1,3,5) D(4) Q]
  have "1 \<le> length ASCII_CHARS" "int (length ASCII_CHARS) \<le> 2 ^ 53"
    by (simp_all add: ASCII_CHARS_def)
  from lines_shape[OF S[folded D(1)] _ assms(1,3,5) this] show ?thesis by simp
qed




lemma rows_of_2_by_2: "\<lfloor>rnd (2 / rnd (rnd (2 / 2) / rnd (43 / 100)))\<rfloor> = 0"
  by code_simp



section \<open>Properties of the pipeline\<close>

subsection \<open>What a frame renders to\<close>

text \<open>
  In save mode a frame of a size up to \<open>2^31\<close> always reaches the writer: its glyph grid
  exists and the renderer turns it into an image whose size depends on the grid shape only.
\<close>

lemma process_frame_save:
  assumes "1 \<le> fr_h f" "fr_h f \<le> 2 ^ 31" "1 \<le> fr_w f" "fr_w f \<le> 2 ^ 31" "1 \<le> cols" "cols \<le> 2 ^ 31"
    and "fr_cvt f = None"
  shows "process_frame W fnt cols fps True s f
           = save_frame W fps s f
               (make_even (fst (char_size fnt) * cols + 12))
               (make_even (snd (char_size fnt)
                  * max 1 \<lfloor>rnd (of_int (fr_h f) / rnd (rnd (of_int (fr_w f) / of_int cols) / rnd (43 / 100)))\<rfloor>
                  + 12))"
proof -
  let ?rows = "max 1 \<lfloor>rnd (of_int (fr_h f) / rnd (rnd (of_int (fr_w f) / of_int cols) / rnd (43 / 100)))\<rfloor>"
  from default_lines[OF assms(1-6), of "fr_resize f"] obtain lines where
    L: "frame_to_ascii_lines (fr_resize f) (fr_h f) (fr_w f) cols default_scale ASCII_CHARS = Inr lines"
      "int (length lines) = ?rows" "\<forall>l\<in>set lines. int (length l) = cols"
    by blast
  have ne: "lines \<noteq> []" using L(2) by auto
  have mc: "max_cols lines = cols" by (rule max_cols_uniform[OF ne L(3)])
  have rows: "max 1 (int (length lines)) = ?rows" using L(2) by simp
  have sz: "image_size lines fnt 6
      = (make_even (fst (char_size fnt) * cols + 12),
         make_even (snd (char_size fnt) * ?rows + 12))"
    by (simp only: image_size_eq mc rows) simp
  have R: "render_ascii_to_image lines fnt (0, 0, 0) (255, 255, 255) 6
      = Inr \<lparr>img_width = make_even (fst (char_size fnt) * cols + 12),
             img_height = make_even (snd (char_size fnt) * ?rows + 12),
             img_bg = (0, 0, 0),
             img_text = draw_lines 6 6 (snd (char_size fnt)) (255, 255, 255) lines\<rparr>"
    using render_ok(1)[of 6 lines fnt "(0, 0, 0)" "(255, 255, 255)"] by (simp only: sz) simp
  have pos: "0 < make_even (fst (char_size fnt) * cols + 12)"
    "0 < make_even (snd (char_size fnt) * ?rows + 12)"
    using render_ok(2)[where padding = 6 and lines = lines and fnt = fnt]
      render_ok(3)[where padding = 6 and lines = lines and fnt = fnt]
    by (simp_all add: sz)
  show ?thesis using pos by (simp add: process_frame_def assms(7) L(1) R)
qed

lemma rendered_size_bounds:
  assumes "1 \<le> cols" "cols \<le> 2 ^ 31" "1 \<le> rows" "rows \<le> 2 ^ 31" "0 < c" "c \<le> 2 ^ 16"
  shows "1 \<le> make_even (c * cols + 12)" and "make_even (c * cols + 12) \<le> 2 ^ 48"
proof -
  have "0 < c * cols" using assms(1,5) by (intro mult_pos_pos) auto
  then show "1 \<le> make_even (c * cols + 12)"
    using make_even_bounds[of "c * cols + 12"] by linarith
  have "c * cols \<le> 2 ^ 16 * 2 ^ 31" using assms by (intro mult_mono) auto
  then have "c * cols + 13 \<le> 2 ^ 48" by simp
  then show "make_even (c * cols + 12) \<le> 2 ^ 48"
    using make_even_bounds[of "c * cols + 12"] by linarith
qed

subsection \<open>Handles\<close>

lemma open_after_append: "open_after hs (xs @ ys) = open_after (open_after hs xs) ys"
  by (induction hs xs rule: open_after.induct) simp_all

lemma open_after_no_create:
  assumes "\<forall>i p c fps sz ok. WriterCreate i p c fps sz ok \<notin> set evs"
  shows "set (open_after hs evs) \<subseteq> set hs"
  using assms
proof (induction hs evs rule: open_after.induct)
  case (2 hs i p c fps sz ok evs)
  from "2.prems" have "WriterCreate i p c fps sz ok \<notin> set (WriterCreate i p c fps sz ok # evs)"
    by blast
  then show ?case by simp
next
  case (3 hs i evs)
  then have "set (open_after (removeAll (Writer i) hs) evs) \<subseteq> set (removeAll (Writer i) hs)" by simp
  then show ?case by auto
next
  case (4 hs evs)
  then have "set (open_after (removeAll Cap hs) evs) \<subseteq> set (removeAll Cap hs)" by simp
  then show ?case by auto
qed auto

lemma open_after_release_all:
  "set (open_after hs (release_all s))
     = set hs - {Cap} - (case writer s of None \<Rightarrow> {} | Some i \<Rightarrow> {Writer i})"
  by (cases "writer s") (auto simp: release_all_def)

text \<open>
  Throughout the loop, the handles that are open are at most the input source and the writer
  the variable \<^verbatim>\<open>writer\<close> holds.
\<close>

lemma write_frame_handles:
  assumes "write_frame i s res fr = (x, s')"
  shows "open_after hs (trace s') = open_after hs (trace s) \<and> writer s' = writer s"
  using assms by (cases res) (auto simp: write_frame_def emit_def open_after_append)

lemma emit_frame_handles:
  assumes "emit_frame i s f img_w img_h out_w out_h = (x, s')"
  shows "open_after hs (trace s') = open_after hs (trace s) \<and> writer s' = writer s"
  using assms write_frame_handles
  by (cases "fit_frame img_w img_h out_w out_h") (auto simp: emit_frame_def)

lemma writer_first_handles:
  assumes "writer_first W fps img_w img_h s = (r, s')"
    and "set (open_after [Cap] (trace s)) \<subseteq> {Cap}"
  shows "set (open_after [Cap] (trace s')) \<subseteq> insert Cap (case writer s' of None \<Rightarrow> {} | Some i \<Rightarrow> {Writer i})"
    and "r \<noteq> None \<longrightarrow> r = writer s'"
  using assms
  by (auto simp: writer_first_def Let_def emit_def open_after_append split: if_splits)

lemma save_frame_handles:
  assumes "save_frame W fps s f img_w img_h = (x, s')"
    and "set (open_after [Cap] (trace s)) \<subseteq> insert Cap (case writer s of None \<Rightarrow> {} | Some i \<Rightarrow> {Writer i})"
  shows "set (open_after [Cap] (trace s')) \<subseteq> insert Cap (case writer s' of None \<Rightarrow> {} | Some i \<Rightarrow> {Writer i})"
proof (cases "writer s")
  case None
  obtain r s1 where wf: "writer_first W fps img_w img_h s = (r, s1)"
    by (cases "writer_first W fps img_w img_h s")
  from assms(2) None have "set (open_after [Cap] (trace s)) \<subseteq> {Cap}" by simp
  note H = writer_first_handles[OF wf this]
  show ?thesis
  proof (cases r)
    case None
    with assms(1) \<open>writer s = None\<close> wf have "s' = s1" by (simp add: save_frame_def)
    then show ?thesis using H(1) by simp
  next
    case (Some j)
    with assms(1) \<open>writer s = None\<close> wf
    have "emit_frame j s1 f img_w img_h img_w img_h = (x, s')" by (simp add: save_frame_def)
    from emit_frame_handles[OF this, of "[Cap]"] H(1) show ?thesis by simp
  qed
next
  case (Some i)
  show ?thesis
  proof (cases "writer_size (fr_get f) img_w img_h")
    case (Inl e)
    with assms(1) Some have "s' = s" by (simp add: save_frame_def)
    then show ?thesis using assms(2) by simp
  next
    case (Inr sz)
    obtain ow oh where "sz = (ow, oh)" by (cases sz)
    with assms(1) Some Inr have "emit_frame i s f img_w img_h ow oh = (x, s')"
      by (simp add: save_frame_def)
    from emit_frame_handles[OF this, of "[Cap]"] assms(2) show ?thesis by simp
  qed
qed

lemma process_frame_handles:
  assumes "process_frame W fnt cols fps save_mode s f = (x, s')"
    and "set (open_after [Cap] (trace s)) \<subseteq> insert Cap (case writer s of None \<Rightarrow> {} | Some i \<Rightarrow> {Writer i})"
  shows "set (open_after [Cap] (trace s')) \<subseteq> insert Cap (case writer s' of None \<Rightarrow> {} | Some i \<Rightarrow> {Writer i})"
proof (cases "fr_cvt f")
  case (Some e)
  with assms(1) have "s' = s" by (simp add: process_frame_def)
  then show ?thesis using assms(2) by simp
next
  case gray: None
  show ?thesis
  proof (cases "frame_to_ascii_lines (fr_resize f) (fr_h f) (fr_w f) cols default_scale ASCII_CHARS")
    case (Inl e)
    with assms(1) gray have "s' = s" by (simp add: process_frame_def)
    then show ?thesis using assms(2) by simp
  next
    case lines: (Inr lines)
    show ?thesis
    proof (cases save_mode)
      case False
      with assms(1) gray lines have "s' = emit [PrintFrame lines] s" by (simp add: process_frame_def)
      then show ?thesis using assms(2) by (simp add: emit_def open_after_append)
    next
      case True
      show ?thesis
      proof (cases "render_ascii_to_image lines fnt (0, 0, 0) (255, 255, 255) 6")
        case (Inl e)
        with assms(1) gray lines True have "s' = s" by (simp add: process_frame_def)
        then show ?thesis using assms(2) by simp
      next
        case (Inr img)
        show ?thesis
        proof (cases "img_width img \<le> 0 \<or> img_height img \<le> 0")
          case True
          with assms(1) gray lines \<open>save_mode\<close> Inr have "s' = s" by (simp add: process_frame_def)
          then show ?thesis using assms(2) by simp
        next
          case False
          with assms(1) gray lines \<open>save_mode\<close> Inr
          have "save_frame W fps s f (img_width img) (img_height img) = (x, s')"
            by (simp add: process_frame_def)
          from save_frame_handles[OF this assms(2)] show ?thesis .
        qed
      qed
    qed
  qed
qed

lemma run_loop_handles:
  assumes "run_loop W fnt cols fps save_mode s rs = (x, s')"
    and "set (open_after [Cap] (trace s)) \<subseteq> insert Cap (case writer s of None \<Rightarrow> {} | Some i \<Rightarrow> {Writer i})"
  shows "set (open_after [Cap] (trace s')) \<subseteq> insert Cap (case writer s' of None \<Rightarrow> {} | Some i \<Rightarrow> {Writer i})"
  using assms
proof (induction W fnt cols fps save_mode s rs rule: run_loop.induct)
  case (3 W fnt cols fps save_mode s f rs)
  obtain y s1 where p: "process_frame W fnt cols fps save_mode s f = (y, s1)"
    by (cases "process_frame W fnt cols fps save_mode s f")
  note H = process_frame_handles[OF p "3.prems"(2)]
  show ?case
  proof (cases y)
    case None
    with "3.prems"(1) p have "run_loop W fnt cols fps save_mode s1 rs = (x, s')" by simp
    from "3.IH"[OF p[symmetric] None this H] show ?thesis .
  next
    case (Some e)
    with "3.prems"(1) p have "s' = s1" by simp
    then show ?thesis using H by simp
  qed
qed simp_all

lemma all_released:
  assumes "set (open_after [Cap] (trace s)) \<subseteq> insert Cap (case writer s of None \<Rightarrow> {} | Some i \<Rightarrow> {Writer i})"
    and "\<forall>i p c fps sz ok. WriterCreate i p c fps sz ok \<notin> set evs"
  shows "open_after [Cap] (trace s @ evs @ release_all s) = []"
proof -
  have "set (open_after (open_after [Cap] (trace s)) evs) \<subseteq> set (open_after [Cap] (trace s))"
    by (rule open_after_no_create[OF assms(2)])
  with assms(1) have "set (open_after [Cap] (trace s @ evs @ release_all s)) = {}"
    by (cases "writer s") (auto simp: open_after_append open_after_release_all)
  then show ?thesis by simp
qed

lemma after_loop_no_create:
  "WriterCreate i p c fps sz ok \<notin> set (after_loop W input_path save_mode merge_audio_opt s)"
  by (auto simp: after_loop_def release_all_def merge_audio_def Let_def
      split: option.splits proc_result.splits if_splits)

text \<open>
  Nothing before the \<^verbatim>\<open>try\<close> statement can raise but the font setup: the rate is positive
  or infinite, so the frame delay is defined.
\<close>

lemma frame_delay_defined: "\<exists>d. float_truediv (Fin 1) (resolve_fps fps in_fps) = Inr d"
  by (cases fps; cases in_fps) (auto simp: resolve_fps_def)

lemma before_loop_eq:
  "before_loop W fps font_size
     = (case font_setup W font_size of
          Inl e \<Rightarrow> Inl e
        | Inr fnt \<Rightarrow> Inr (resolve_fps fps (cap_fps W), fnt))"
proof -
  obtain d where "float_truediv (Fin 1) (resolve_fps fps (cap_fps W)) = Inr d"
    using frame_delay_defined by blast
  then show ?thesis by (simp add: before_loop_def Let_def py_bind_def split: sum.splits)
qed

lemma convert_video_loop:
  assumes "cap_isOpened W" and "font_setup W font_size = Inr fnt"
  shows "convert_video W input_path out_path cols fps font_size save_mode merge_audio_opt
     = (case run_loop W fnt cols (resolve_fps fps (cap_fps W)) save_mode
               \<lparr>writer = None, created = 0, output_path = out_path, trace = []\<rparr> (cap_reads W) of
          (Broke, s) \<Rightarrow>
            (Completed, trace s @ after_loop W input_path save_mode merge_audio_opt s @ release_all s)
        | (Returned, s) \<Rightarrow> (WriterFailed, trace s @ release_all s)
        | (Raised e, s) \<Rightarrow> (Crashed e, trace s @ release_all s)
        | (Interrupted, s) \<Rightarrow> (Stopped, trace s @ [PrintMsg StoppedByUser] @ release_all s))"
  using assms by (simp add: convert_video_def before_loop_eq)

lemma convert_video_font_raises:
  assumes "cap_isOpened W" and "font_setup W font_size = Inl e"
  shows "convert_video W input_path out_path cols fps font_size save_mode merge_audio_opt
     = (Crashed e, [])"
  using assms by (simp add: convert_video_def before_loop_eq)

text \<open>
  Once the font is set up, every way out of \<^verbatim>\<open>convert_video\<close> (the end of the stream, the
  return after the writer failed to open, KeyboardInterrupt during a read or a write, and an
  exception raised while a frame is processed) leaves no handle open: the input source has
  been released and so has every writer that was created.
\<close>

lemma handles_released_after_setup:
  assumes "cap_isOpened W" and "font_setup W font_size = Inr fnt"
  shows "open_after [Cap]
           (snd (convert_video W input_path out_path cols fps font_size save_mode merge_audio_opt)) = []"
proof -
  let ?s0 = "\<lparr>writer = None, created = 0, output_path = out_path, trace = []\<rparr>"
  note cv = convert_video_loop[OF assms]
  obtain x s where r: "run_loop W fnt cols (resolve_fps fps (cap_fps W)) save_mode ?s0 (cap_reads W) = (x, s)"
    by (cases "run_loop W fnt cols (resolve_fps fps (cap_fps W)) save_mode ?s0 (cap_reads W)")
  have "set (open_after [Cap] (trace ?s0)) \<subseteq> insert Cap (case writer ?s0 of None \<Rightarrow> {} | Some i \<Rightarrow> {Writer i})"
    by simp
  note H = run_loop_handles[OF r this]
  show ?thesis
  proof (cases x)
    case Broke
    have "open_after [Cap] (trace s @ after_loop W input_path save_mode merge_audio_opt s @ release_all s) = []"
      by (rule all_released[OF H]) (simp add: after_loop_no_create)
    then show ?thesis using r Broke by (simp add: cv)
  next
    case Returned
    have "open_after [Cap] (trace s @ [] @ release_all s) = []"
      by (rule all_released[OF H]) simp
    then show ?thesis using r Returned by (simp add: cv)
  next
    case (Raised e)
    have "open_after [Cap] (trace s @ [] @ release_all s) = []"
      by (rule all_released[OF H]) simp
    then show ?thesis using r Raised by (simp add: cv)
  next
    case Interrupted
    have "open_after [Cap] (trace s @ [PrintMsg StoppedByUser] @ release_all s) = []"
      by (rule all_released[OF H]) simp
    then show ?thesis using r Interrupted by (simp add: cv)
  qed
qed

text \<open>
  When the font setup raises, the function is left with the input source open and nothing
  else done: the source was opened on line 110, the font is loaded on line 131, and the
  \<^verbatim>\<open>try\<close> statement whose \<^verbatim>\<open>finally\<close> clause releases the source starts on line 138.
\<close>

lemma source_open_after_font_error:
  assumes "cap_isOpened W" and "font_setup W font_size = Inl e"
  shows "open_after [Cap]
           (snd (convert_video W input_path out_path cols fps font_size save_mode merge_audio_opt)) = [Cap]"
  using convert_video_font_raises[OF assms] by simp

subsection \<open>The example environment\<close>


lemma font_setup_example:
  "0 < n \<Longrightarrow> font_setup (example_world rs opens) n = Inr example_font"
  "n \<le> 0 \<Longrightarrow> font_setup (example_world rs opens) n = Inl ValueError"
  by (simp_all add: font_setup_def font_candidates_def example_world_def)



text \<open>
  C8. Not every exit of \<^verbatim>\<open>convert_video\<close> releases the input source: the exit taken when
  the font cannot be loaded does not. In the example environment, a run with font size 0 ends
  with the exception of \<^verbatim>\<open>ImageFont.truetype\<close>, has had no effect at all, and leaves the
  input source open. The same run with font size 12 leaves nothing open.
\<close>

theorem source_left_open_when_font_fails:
  "convert_video (example_world [Frame small_frame] always_opens)
       ''in.mp4'' ''out.mp4'' 2 (Fin 0) 0 True False
     = (Crashed ValueError, [])
   \<and> open_after [Cap] (snd (convert_video (example_world [Frame small_frame] always_opens)
                               ''in.mp4'' ''out.mp4'' 2 (Fin 0) 0 True False)) = [Cap]
   \<and> open_after [Cap] (snd (convert_video (example_world [Frame small_frame] always_opens)
                               ''in.mp4'' ''out.mp4'' 2 (Fin 0) 12 True False)) = []"
proof -
  let ?W = "example_world [Frame small_frame] always_opens"
  have o: "cap_isOpened ?W" by (simp add: example_world_def)
  have bad: "font_setup ?W 0 = Inl ValueError" by (rule font_setup_example(2)) simp
  have good: "font_setup ?W 12 = Inr example_font" by (rule font_setup_example(1)) simp
  show ?thesis
    using convert_video_font_raises[OF o bad] source_open_after_font_error[OF o bad]
      handles_released_after_setup[OF o good]
    by simp
qed



subsection \<open>Audio remux\<close>




subsection \<open>Once a writer exists\<close>

text \<open>
  With a writer in hand, the loop in save mode only writes frames to it and prints that a
  write failed: it creates no writer, changes no path and never takes the return of line 179.
\<close>

lemma write_frame_effects:
  assumes "write_frame i s res fr = (y, s')"
  shows "\<exists>evs. trace s' = trace s @ evs
           \<and> (\<forall>ev\<in>set evs. (\<exists>fr r. ev = WriterWrite i fr r) \<or> ev = PrintMsg FrameWriteFailed)
           \<and> writer s' = writer s \<and> output_path s' = output_path s
           \<and> (y = None \<or> y = Some Interrupted)"
  using assms by (cases res) (auto simp: write_frame_def emit_def)

lemma emit_frame_effects:
  assumes "emit_frame i s f img_w img_h out_w out_h = (y, s')"
  shows "\<exists>evs. trace s' = trace s @ evs
           \<and> (\<forall>ev\<in>set evs. (\<exists>fr r. ev = WriterWrite i fr r) \<or> ev = PrintMsg FrameWriteFailed)
           \<and> writer s' = writer s \<and> output_path s' = output_path s
           \<and> y \<noteq> Some Returned"
proof (cases "fit_frame img_w img_h out_w out_h")
  case (Inl e)
  with assms have "s' = s" "y = Some (Raised e)" by (simp_all add: emit_frame_def)
  then show ?thesis by simp
next
  case (Inr fr)
  with assms have "write_frame i s (fr_write f) fr = (y, s')" by (simp add: emit_frame_def)
  from write_frame_effects[OF this] show ?thesis by auto
qed

lemma process_frame_with_writer:
  assumes "process_frame W fnt cols fps True s f = (y, s')" "writer s = Some i"
  shows "\<exists>evs. trace s' = trace s @ evs
           \<and> (\<forall>ev\<in>set evs. (\<exists>fr r. ev = WriterWrite i fr r) \<or> ev = PrintMsg FrameWriteFailed)
           \<and> writer s' = writer s \<and> output_path s' = output_path s
           \<and> y \<noteq> Some Returned"
proof -
  have stop: ?thesis if "s' = s" "y = Some (Raised e)" for e using that by simp
  show ?thesis
  proof (cases "fr_cvt f")
    case (Some e)
    with assms(1) have "s' = s" "y = Some (Raised e)" by (simp_all add: process_frame_def)
    then show ?thesis by (rule stop)
  next
    case gray: None
    show ?thesis
    proof (cases "frame_to_ascii_lines (fr_resize f) (fr_h f) (fr_w f) cols default_scale ASCII_CHARS")
      case (Inl e)
      with assms(1) gray have "s' = s" "y = Some (Raised e)" by (simp_all add: process_frame_def)
      then show ?thesis by (rule stop)
    next
      case lines: (Inr lines)
      show ?thesis
      proof (cases "render_ascii_to_image lines fnt (0, 0, 0) (255, 255, 255) 6")
        case (Inl e)
        with assms(1) gray lines have "s' = s" "y = Some (Raised e)"
          by (simp_all add: process_frame_def)
        then show ?thesis by (rule stop)
      next
        case img: (Inr img)
        show ?thesis
        proof (cases "img_width img \<le> 0 \<or> img_height img \<le> 0")
          case True
          with assms(1) gray lines img have "s' = s" "y = Some (Raised Cv2Error)"
            by (simp_all add: process_frame_def)
          then show ?thesis by (rule stop)
        next
          case False
          with assms(1) gray lines img
          have sf: "save_frame W fps s f (img_width img) (img_height img) = (y, s')"
            by (simp add: process_frame_def)
          show ?thesis
          proof (cases "writer_size (fr_get f) (img_width img) (img_height img)")
            case (Inl e)
            with sf assms(2) have "s' = s" "y = Some (Raised e)" by (simp_all add: save_frame_def)
            then show ?thesis by (rule stop)
          next
            case (Inr sz)
            obtain ow oh where "sz = (ow, oh)" by (cases sz)
            with sf assms(2) Inr
            have "emit_frame i s f (img_width img) (img_height img) ow oh = (y, s')"
              by (simp add: save_frame_def)
            from emit_frame_effects[OF this] show ?thesis .
          qed
        qed
      qed
    qed
  qed
qed

lemma run_loop_with_writer:
  assumes "run_loop W fnt cols fps True s rs = (x, s')" "writer s = Some i"
  shows "\<exists>evs. trace s' = trace s @ evs
           \<and> (\<forall>ev\<in>set evs. (\<exists>fr r. ev = WriterWrite i fr r) \<or> ev = PrintMsg FrameWriteFailed)
           \<and> writer s' = writer s \<and> output_path s' = output_path s
           \<and> x \<noteq> Returned"
  using assms
proof (induction rs arbitrary: s)
  case Nil
  then show ?case by auto
next
  case (Cons r rs)
  show ?case
  proof (cases r)
    case ReadInterrupted
    with Cons.prems show ?thesis by auto
  next
    case (Frame f)
    obtain y s1 where p: "process_frame W fnt cols fps True s f = (y, s1)"
      by (cases "process_frame W fnt cols fps True s f")
    from process_frame_with_writer[OF p Cons.prems(2)] obtain evs where
      E: "trace s1 = trace s @ evs"
        "\<forall>ev\<in>set evs. (\<exists>fr r. ev = WriterWrite i fr r) \<or> ev = PrintMsg FrameWriteFailed"
        "writer s1 = writer s" "output_path s1 = output_path s" "y \<noteq> Some Returned"
      by blast
    show ?thesis
    proof (cases y)
      case None
      with Cons.prems(1) Frame p have "run_loop W fnt cols fps True s1 rs = (x, s')" by simp
      from Cons.IH[OF this] E(3) Cons.prems(2) obtain evs' where
        E': "trace s' = trace s1 @ evs'"
          "\<forall>ev\<in>set evs'. (\<exists>fr r. ev = WriterWrite i fr r) \<or> ev = PrintMsg FrameWriteFailed"
          "writer s' = writer s1" "output_path s' = output_path s1" "x \<noteq> Returned"
        by auto
      have "trace s' = trace s @ (evs @ evs')" using E(1) E'(1) by simp
      moreover have "\<forall>ev\<in>set (evs @ evs'). (\<exists>fr r. ev = WriterWrite i fr r) \<or> ev = PrintMsg FrameWriteFailed"
        using E(2) E'(2) by auto
      ultimately show ?thesis using E(3,4) E'(3,4,5) by metis
    next
      case (Some e)
      with Cons.prems(1) Frame p have "x = e" "s' = s1" by simp_all
      then show ?thesis using E Some by auto
    qed
  qed
qed

lemma frame_sizes_mem:
  assumes "(j, w, h) \<in> set (frame_sizes evs)"
  shows "\<exists>fr r. WriterWrite j fr r \<in> set evs"
  using assms by (induction evs rule: frame_sizes.induct) auto

lemma frame_sizes_append: "frame_sizes (xs @ ys) = frame_sizes xs @ frame_sizes ys"
  by (induction xs rule: frame_sizes.induct) simp_all

lemma filter_create_writes:
  assumes "\<forall>ev\<in>set evs. (\<exists>fr r. ev = WriterWrite i fr r) \<or> ev = PrintMsg FrameWriteFailed"
  shows "filter is_create evs = []"
  using assms by (auto simp: filter_empty_conv)

lemma filter_create_after_loop:
  "filter is_create (after_loop W input_path save_mode merge_audio_opt s) = []"
  by (auto simp: filter_empty_conv after_loop_def release_all_def merge_audio_def Let_def
      split: option.splits proc_result.splits if_splits)

lemma filter_create_release: "filter is_create (release_all s) = []"
  by (auto simp: release_all_def split: option.splits)

lemma frame_sizes_after_loop:
  "frame_sizes (after_loop W input_path save_mode merge_audio_opt s) = []"
  by (auto simp: after_loop_def release_all_def merge_audio_def Let_def
      split: option.splits proc_result.splits if_splits)

lemma frame_sizes_release: "frame_sizes (release_all s) = []"
  by (auto simp: release_all_def split: option.splits)

lemma saved_after_loop:
  assumes "ShowInfo (SavedTo p) \<in> set (after_loop W input_path save_mode merge_audio_opt s)"
  shows "p = output_path s"
  using assms
  by (auto simp: after_loop_def release_all_def merge_audio_def Let_def
      split: option.splits proc_result.splits if_splits)

lemma saved_release: "ShowInfo m \<notin> set (release_all s)"
  by (auto simp: release_all_def split: option.splits)


subsection \<open>What follows the loop\<close>

lemma convert_video_tail:
  assumes "cap_isOpened W" and "font_setup W font_size = Inr fnt"
    and "run_loop W fnt cols (resolve_fps fps (cap_fps W)) True
           \<lparr>writer = None, created = 0, output_path = out_path, trace = []\<rparr> (cap_reads W) = (x, s)"
    and "convert_video W input_path out_path cols fps font_size True merge_audio_opt = (res, tr)"
  shows "\<exists>tail. tr = trace s @ tail \<and> filter is_create tail = [] \<and> frame_sizes tail = []
           \<and> (\<forall>p. ShowInfo (SavedTo p) \<in> set tail \<longrightarrow> p = output_path s)
           \<and> (res = Completed \<longrightarrow> ShowInfo (SavedTo (output_path s)) \<in> set tail)
           \<and> (res = WriterFailed \<longleftrightarrow> x = Returned)"
proof (cases x)
  case Broke
  let ?tail = "after_loop W input_path True merge_audio_opt s @ release_all s"
  have "res = Completed" "tr = trace s @ ?tail"
    using assms(3,4) Broke by (simp_all add: convert_video_loop[OF assms(1,2)])
  moreover have "filter is_create ?tail = []" "frame_sizes ?tail = []"
    by (simp_all add: filter_create_after_loop filter_create_release frame_sizes_append
        frame_sizes_after_loop frame_sizes_release)
  moreover have "\<forall>p. ShowInfo (SavedTo p) \<in> set ?tail \<longrightarrow> p = output_path s"
    using saved_after_loop saved_release by auto
  moreover have "ShowInfo (SavedTo (output_path s)) \<in> set ?tail"
    by (simp add: after_loop_def)
  ultimately show ?thesis using Broke by blast
next
  case Returned
  have "res = WriterFailed" "tr = trace s @ release_all s"
    using assms(3,4) Returned by (simp_all add: convert_video_loop[OF assms(1,2)])
  then show ?thesis
    using Returned saved_release filter_create_release frame_sizes_release by auto
next
  case (Raised e)
  have "res = Crashed e" "tr = trace s @ release_all s"
    using assms(3,4) Raised by (simp_all add: convert_video_loop[OF assms(1,2)])
  then show ?thesis
    using Raised saved_release filter_create_release frame_sizes_release by auto
next
  case Interrupted
  have "res = Stopped" "tr = trace s @ (PrintMsg StoppedByUser # release_all s)"
    using assms(3,4) Interrupted by (simp_all add: convert_video_loop[OF assms(1,2)])
  moreover have "filter is_create (PrintMsg StoppedByUser # release_all s) = []"
    "frame_sizes (PrintMsg StoppedByUser # release_all s) = []"
    "\<forall>p. ShowInfo (SavedTo p) \<notin> set (PrintMsg StoppedByUser # release_all s)"
    using saved_release by (simp_all add: filter_create_release frame_sizes_release)
  ultimately show ?thesis using Interrupted by blast
qed

subsection \<open>Fallback of the writer\<close>

text \<open>
  C7. In save mode, on the first rendered frame (the first frame read, of a size up to \<open>2^31\<close>,
  in a run whose font was set up and whose first frame converts to grayscale),
  when the writer does not open with the primary container and codec (the given path, mp4v):
  exactly one more writer is created in the whole run, for the same frame size and rate, with
  the alternate codec MJPG and the output path renamed to the extension \<^verbatim>\<open>.avi\<close>. If that
  one opens, the run does not end as a writer failure, every frame is written to it, and the
  saved-video report, made when the run completes, names the renamed path. If it does not open
  either, the run ends as a writer failure: the error is shown, the input source is released,
  no frame is written and nothing else happens.
\<close>

theorem writer_retry_once:
  assumes "cap_isOpened W" and "cap_reads W = Frame f # rest"
    and "1 \<le> fr_h f" "fr_h f \<le> 2 ^ 31" "1 \<le> fr_w f" "fr_w f \<le> 2 ^ 31" "1 \<le> cols" "cols \<le> 2 ^ 31"
    and "\<not> writer_isOpened W out_path MP4V"
    and "alt_path = splitext_root W out_path @ ''.avi''"
    and "rate = resolve_fps fps (cap_fps W)"
    and "sz = (make_even (fst (char_size fnt) * cols + 12),
               make_even (snd (char_size fnt)
                  * max 1 \<lfloor>rnd (of_int (fr_h f) / rnd (rnd (of_int (fr_w f) / of_int cols) / rnd (43 / 100)))\<rfloor>
                  + 12))"
    and "convert_video W input_path out_path cols fps font_size True merge_audio_opt = (res, tr)"
    and "font_setup W font_size = Inr fnt" and "fr_cvt f = None"
  shows "filter is_create tr
           = [WriterCreate 0 out_path MP4V rate sz False,
              WriterCreate 1 alt_path MJPG rate sz (writer_isOpened W alt_path MJPG)]
       \<and> (writer_isOpened W alt_path MJPG \<longrightarrow>
            res \<noteq> WriterFailed
            \<and> (\<forall>p. ShowInfo (SavedTo p) \<in> set tr \<longrightarrow> p = alt_path)
            \<and> (res = Completed \<longrightarrow> ShowInfo (SavedTo alt_path) \<in> set tr)
            \<and> (\<forall>j w h. (j, w, h) \<in> set (frame_sizes tr) \<longrightarrow> j = 1))
       \<and> (\<not> writer_isOpened W alt_path MJPG \<longrightarrow>
            res = WriterFailed
            \<and> tr = [WriterCreate 0 out_path MP4V rate sz False, WriterRelease 0,
                    WriterCreate 1 alt_path MJPG rate sz False,
                    ShowError WriterOpenFailed, CapRelease, WriterRelease 1, CapRelease])"
proof -
  let ?s0 = "\<lparr>writer = None, created = 0, output_path = out_path, trace = []\<rparr>"
  obtain iw ih where szv: "sz = (iw, ih)" by (cases sz)
  have pf: "process_frame W fnt cols rate True ?s0 f = save_frame W rate ?s0 f iw ih"
    using process_frame_save[OF assms(3-8) assms(15), where W = W and fnt = fnt and fps = rate
        and s = "?s0"] assms(12) szv by simp
  obtain x s4 where rl: "run_loop W fnt cols rate True ?s0 (cap_reads W) = (x, s4)"
    by (cases "run_loop W fnt cols rate True ?s0 (cap_reads W)")
  from convert_video_tail[OF assms(1) assms(14) rl[unfolded assms(11)] assms(13)] obtain tail where
    T: "tr = trace s4 @ tail" "filter is_create tail = []" "frame_sizes tail = []"
      "\<forall>p. ShowInfo (SavedTo p) \<in> set tail \<longrightarrow> p = output_path s4"
      "res = Completed \<longrightarrow> ShowInfo (SavedTo (output_path s4)) \<in> set tail"
      "res = WriterFailed \<longleftrightarrow> x = Returned"
    by blast
  show ?thesis
  proof (cases "writer_isOpened W alt_path MJPG")
    case False
    let ?sf = "\<lparr>writer = Some 1, created = 2, output_path = out_path,
                trace = [WriterCreate 0 out_path MP4V rate sz False, WriterRelease 0,
                         WriterCreate 1 alt_path MJPG rate sz False,
                         ShowError WriterOpenFailed, CapRelease]\<rparr>"
    have "save_frame W rate ?s0 f iw ih = (Some Returned, ?sf)"
      using assms(9) False assms(10) szv
      by (simp add: save_frame_def writer_first_def emit_def Let_def)
    then have "run_loop W fnt cols rate True ?s0 (cap_reads W) = (Returned, ?sf)"
      by (simp add: assms(2) pf)
    with rl have "x = Returned" "s4 = ?sf" by simp_all
    moreover have "tr = trace s4 @ release_all s4"
      using assms(13) rl[unfolded assms(11)] \<open>x = Returned\<close>
      by (simp add: convert_video_loop[OF assms(1,14)])
    ultimately have "res = WriterFailed"
      and "tr = [WriterCreate 0 out_path MP4V rate sz False, WriterRelease 0,
                 WriterCreate 1 alt_path MJPG rate sz False,
                 ShowError WriterOpenFailed, CapRelease, WriterRelease 1, CapRelease]"
      using T(6) by (simp_all add: release_all_def)
    then show ?thesis using False by simp
  next
    case True
    let ?pre = "[WriterCreate 0 out_path MP4V rate sz False, WriterRelease 0,
                 WriterCreate 1 alt_path MJPG rate sz True]"
    let ?s2 = "\<lparr>writer = Some 1, created = 2, output_path = alt_path, trace = ?pre\<rparr>"
    have wf: "writer_first W rate iw ih ?s0 = (Some 1, ?s2)"
      using assms(9) True assms(10) szv by (simp add: writer_first_def emit_def Let_def)
    obtain y s3 where w3: "write_frame 1 ?s2 (fr_write f) (whole_frame iw ih) = (y, s3)"
      by (cases "write_frame 1 ?s2 (fr_write f) (whole_frame iw ih)")
    have sf: "save_frame W rate ?s0 f iw ih = (y, s3)"
      using wf w3 by (simp add: save_frame_def emit_frame_def fit_frame_def)
    from write_frame_effects[OF w3] obtain evs0 where
      E0: "trace s3 = ?pre @ evs0"
        "\<forall>ev\<in>set evs0. (\<exists>fr r. ev = WriterWrite 1 fr r) \<or> ev = PrintMsg FrameWriteFailed"
        "writer s3 = Some 1" "output_path s3 = alt_path" "y = None \<or> y = Some Interrupted"
      by auto
    have "\<exists>evs. trace s4 = ?pre @ evs
            \<and> (\<forall>ev\<in>set evs. (\<exists>fr r. ev = WriterWrite 1 fr r) \<or> ev = PrintMsg FrameWriteFailed)
            \<and> output_path s4 = alt_path \<and> x \<noteq> Returned"
    proof (cases y)
      case None
      with rl have "run_loop W fnt cols rate True s3 rest = (x, s4)"
        by (simp add: assms(2) pf sf)
      from run_loop_with_writer[OF this E0(3)] obtain evs where
        "trace s4 = trace s3 @ evs"
        "\<forall>ev\<in>set evs. (\<exists>fr r. ev = WriterWrite 1 fr r) \<or> ev = PrintMsg FrameWriteFailed"
        "output_path s4 = output_path s3" "x \<noteq> Returned"
        by blast
      with E0(1,2,4) have "trace s4 = ?pre @ (evs0 @ evs)"
        "\<forall>ev\<in>set (evs0 @ evs). (\<exists>fr r. ev = WriterWrite 1 fr r) \<or> ev = PrintMsg FrameWriteFailed"
        "output_path s4 = alt_path" "x \<noteq> Returned"
        by auto
      then show ?thesis by blast
    next
      case (Some e)
      with rl have "x = e" "s4 = s3" by (simp_all add: assms(2) pf sf)
      with E0 Some show ?thesis by auto
    qed
    then obtain evs where
      E: "trace s4 = ?pre @ evs"
        "\<forall>ev\<in>set evs. (\<exists>fr r. ev = WriterWrite 1 fr r) \<or> ev = PrintMsg FrameWriteFailed"
        "output_path s4 = alt_path" "x \<noteq> Returned"
      by blast
    have tr: "tr = ?pre @ evs @ tail" using T(1) E(1) by simp
    have c: "filter is_create tr
        = [WriterCreate 0 out_path MP4V rate sz False, WriterCreate 1 alt_path MJPG rate sz True]"
      by (simp add: tr filter_create_writes[OF E(2)] T(2))
    have nf: "res \<noteq> WriterFailed" using T(6) E(4) by simp
    have sv: "p = alt_path" if "ShowInfo (SavedTo p) \<in> set tr" for p
    proof -
      from that have "ShowInfo (SavedTo p) \<in> set evs \<or> ShowInfo (SavedTo p) \<in> set tail"
        by (auto simp: tr)
      then show ?thesis using E(2,3) T(4) by auto
    qed
    have cp: "ShowInfo (SavedTo alt_path) \<in> set tr" if "res = Completed"
      using that T(5) E(3) by (simp add: tr)
    have wr: "j = 1" if "(j, w, h) \<in> set (frame_sizes tr)" for j w h
    proof -
      from that have "(j, w, h) \<in> set (frame_sizes evs)"
        by (simp add: tr frame_sizes_append T(3))
      from frame_sizes_mem[OF this] E(2) show ?thesis by auto
    qed
    show ?thesis
    proof (intro conjI impI allI)
      show "filter is_create tr
          = [WriterCreate 0 out_path MP4V rate sz False,
             WriterCreate 1 alt_path MJPG rate sz (writer_isOpened W alt_path MJPG)]"
        using c True by simp
      show "res \<noteq> WriterFailed" by (rule nf)
      show "p = alt_path" if "ShowInfo (SavedTo p) \<in> set tr" for p by (rule sv[OF that])
      show "ShowInfo (SavedTo alt_path) \<in> set tr" if "res = Completed" by (rule cp[OF that])
      show "j = 1" if "(j, w, h) \<in> set (frame_sizes tr)" for j w h by (rule wr[OF that])
      show "res = WriterFailed" if "\<not> writer_isOpened W alt_path MJPG" using that True by simp
      show "tr = [WriterCreate 0 out_path MP4V rate sz False, WriterRelease 0,
                  WriterCreate 1 alt_path MJPG rate sz False,
                  ShowError WriterOpenFailed, CapRelease, WriterRelease 1, CapRelease]"
        if "\<not> writer_isOpened W alt_path MJPG" using that True by simp
    qed
  qed
qed

theorem writer_retry_once_witness:
  "convert_video (example_world [Frame small_frame] (\<lambda>p c. False)) ''in.mp4'' ''out.mp4'' 2 (Fin 0) 12 True False
     = (WriterFailed,
        [WriterCreate 0 ''out.mp4'' MP4V (Fin 24) (28, 28) False, WriterRelease 0,
         WriterCreate 1 ''out.avi'' MJPG (Fin 24) (28, 28) False,
         ShowError WriterOpenFailed, CapRelease, WriterRelease 1, CapRelease])"
proof -
  let ?W = "example_world [Frame small_frame] (\<lambda>p c. False)"
  obtain res tr where r: "convert_video ?W ''in.mp4'' ''out.mp4'' 2 (Fin 0) 12 True False = (res, tr)"
    by (cases "convert_video ?W ''in.mp4'' ''out.mp4'' 2 (Fin 0) 12 True False")
  have fs: "font_setup ?W 12 = Inr example_font" by (rule font_setup_example(1)) simp
  have g: "fr_cvt small_frame = None" by (simp add: small_frame_def)
  have w: "cap_isOpened ?W" "cap_reads ?W = Frame small_frame # []"
    by (simp_all add: example_world_def)
  have b: "1 \<le> fr_h small_frame" "fr_h small_frame \<le> 2 ^ 31"
    "1 \<le> fr_w small_frame" "fr_w small_frame \<le> 2 ^ 31" "(1::int) \<le> 2" "(2::int) \<le> 2 ^ 31"
    by (simp_all add: small_frame_def)
  have o: "\<not> writer_isOpened ?W ''out.mp4'' MP4V" "\<not> writer_isOpened ?W ''out.avi'' MJPG"
    by (simp_all add: example_world_def)
  have p: "''out.avi'' = splitext_root ?W ''out.mp4'' @ ''.avi''"
    by (simp add: example_world_def)
  have q: "Fin 24 = resolve_fps (Fin 0) (cap_fps ?W)"
    by (simp add: example_world_def resolve_fps_def)
  have z: "(28, 28) = (make_even (fst (char_size example_font) * 2 + 12),
      make_even (snd (char_size example_font)
        * max 1 \<lfloor>rnd (of_int (fr_h small_frame)
            / rnd (rnd (of_int (fr_w small_frame) / of_int 2) / rnd (43 / 100)))\<rfloor> + 12))"
    using rows_of_2_by_2 by (simp add: example_font_def small_frame_def char_size_def make_even_def)
  from writer_retry_once[OF w b o(1) p q z r fs g] o(2) have "res = WriterFailed"
    and "tr = [WriterCreate 0 ''out.mp4'' MP4V (Fin 24) (28, 28) False, WriterRelease 0,
               WriterCreate 1 ''out.avi'' MJPG (Fin 24) (28, 28) False,
               ShowError WriterOpenFailed, CapRelease, WriterRelease 1, CapRelease]"
    by blast+
  with r show ?thesis by simp
qed


subsection \<open>Fitting a frame into the canvas\<close>














section \<open>The default ramp in exact arithmetic\<close>

text \<open>
  With the default ramp the two roundings never change the index: \<open>11 v / 255\<close> is an integer
  only for \<open>v = 0\<close> and \<open>v = 255\<close>, where the float operations are exact, and otherwise stays
  at least \<open>1 / 255\<close> away from every integer, much more than the rounding errors.
\<close>

lemma abs_diff_bounds:
  fixes a b d :: rat
  assumes "\<bar>a - b\<bar> \<le> d"
  shows "b - d \<le> a" and "a \<le> b + d"
  using assms by (simp_all add: abs_le_iff)

lemma floor_of_near:
  fixes y :: rat
  assumes "of_int n + d < e" "e < of_int n + 1 - d" "\<bar>y - e\<bar> \<le> d"
  shows "\<lfloor>y\<rfloor> = n"
proof -
  from assms(3) have "e - d \<le> y" "y \<le> e + d" by (simp_all add: abs_le_iff)
  with assms(1,2) have "of_int n \<le> y" "y < of_int n + 1" by linarith+
  then show ?thesis by (simp add: floor_unique)
qed

lemma default_index_exact:
  assumes "0 \<le> v" "v \<le> 255"
  shows "\<lfloor>rnd (rnd (of_int v / 255) * 11)\<rfloor> = v * 11 div 255"
proof -
  consider "v = 0" | "v = 255" | "1 \<le> v" "v \<le> 254" using assms by linarith
  then show ?thesis
  proof cases
    case 1
    then show ?thesis by simp
  next
    case 2
    have "rnd 11 = 11" using rnd_of_int[of 11] by simp
    then show ?thesis using 2 by simp
  next
    case 3
    let ?x = "(of_int v :: rat) / 255"
    let ?r = "rnd ?x"
    let ?p = "?r * 11"
    let ?e = "(of_int (v * 11) :: rat) / 255"
    define n where "n = v * 11 div 255"
    define m where "m = v * 11 mod 255"
    have nd: "\<not> 255 dvd v * 11"
    proof
      assume "255 dvd v * 11"
      then have "255 dvd 116 * (v * 11)" by (rule dvd_mult)
      moreover have "(255::int) dvd 255 * (5 * v)" by simp
      ultimately have "255 dvd 116 * (v * 11) - 255 * (5 * v)" by (rule dvd_diff)
      moreover have "116 * (v * 11) - 255 * (5 * v) = v" by simp
      ultimately have "255 dvd v" by simp
      then obtain k where "v = 255 * k" ..
      with 3 have "1 \<le> 255 * k" "255 * k \<le> 254" by simp_all
      then show False by arith
    qed
    have m: "1 \<le> m" "m \<le> 254"
    proof -
      have "0 \<le> m" "m < 255" by (simp_all add: m_def)
      moreover have "m \<noteq> 0" using nd by (simp add: m_def dvd_eq_mod_eq_0)
      ultimately show "1 \<le> m" "m \<le> 254" by linarith+
    qed
    have "v * 11 = n * 255 + m" by (simp add: n_def m_def)
    then have "(of_int (v * 11) :: rat) = of_int n * 255 + of_int m" by simp
    then have e: "?e = of_int n + of_int m / 255" by (simp add: field_simps)
    have m1: "(1::rat) \<le> of_int m" "(of_int m :: rat) \<le> 254" using m by simp_all
    define u :: rat where "u = 1 / 2 ^ 53"
    have u: "0 < u" "23 * u < 1 / 255" by (simp_all add: u_def)
    have x1: "(1::rat) / 255 \<le> ?x" "?x \<le> 1" using 3 by simp_all
    have "(2::rat) powi (- 1022) \<le> 2 powi (- 8)" by (rule powi_mono) simp
    also have "\<dots> \<le> 1 / 255" by (simp add: power_int_minus field_simps)
    finally have lo: "(2::rat) powi (- 1022) \<le> 1 / 255" .
    with x1(1) have "2 powi (- 1022) \<le> ?x" by linarith
    from rnd_rel_err[OF this] have "\<bar>?r - ?x\<bar> \<le> ?x * u" by (simp add: u_def)
    also have "?x * u \<le> 1 * u" using x1(2) u(1) by (intro mult_right_mono) auto
    finally have "\<bar>?r - ?x\<bar> \<le> u" by simp
    note R = abs_diff_bounds[OF this]
    have ex: "?e = ?x * 11" by simp
    have P: "?e - 11 * u \<le> ?p" "?p \<le> ?e + 11 * u" using R unfolding ex by linarith+
    have e1: "(11::rat) / 255 \<le> ?e" "?e \<le> 11" using x1 unfolding ex by linarith+
    have p1: "1 / 255 \<le> ?p" "?p \<le> 12" using P e1 u by linarith+
    with lo have "2 powi (- 1022) \<le> ?p" by linarith
    from rnd_rel_err[OF this] have "\<bar>rnd ?p - ?p\<bar> \<le> ?p * u" by (simp add: u_def)
    also have "?p * u \<le> 12 * u" using p1(2) u(1) by (intro mult_right_mono) auto
    finally have "\<bar>rnd ?p - ?p\<bar> \<le> 12 * u" .
    note Q = abs_diff_bounds[OF this]
    have d: "\<bar>rnd ?p - ?e\<bar> \<le> 23 * u"
      unfolding abs_le_iff using P Q by (intro conjI) linarith+
    have em: "of_int n + 1 / 255 \<le> ?e" "?e \<le> of_int n + 254 / 255"
      using m1 unfolding e by (simp_all add: field_simps)
    have "of_int n + 23 * u < ?e" "?e < of_int n + 1 - 23 * u"
      using em u(2) by linarith+
    from floor_of_near[OF this d] show ?thesis by (simp add: n_def)
  qed
qed

lemma default_ramp_index_exact:
  assumes "0 \<le> v" "v \<le> 255"
  shows "gray_index v ASCII_CHARS = Inr (v * 11 div 255)"
proof -
  have "1 \<le> length ASCII_CHARS" "int (length ASCII_CHARS) \<le> 2 ^ 53"
    by (simp_all add: ASCII_CHARS_def)
  from gray_index_in_ramp(1)[OF assms this] default_index_exact[OF assms]
  show ?thesis by (simp add: ASCII_CHARS_def)
qed


end
